theory Spec2Isabelle
  imports Main "HOL-Library.Sublist"
begin

section \<open>Strings, numbers and errors of the source language\<close>

text \<open>
  A TypeScript string is a sequence of UTF-16 code units. A code unit is modelled by its
  numeric value, so that the Chinese characters of the source (all in the Basic Multilingual
  Plane, one code unit each) are single list elements and \<open>length\<close> is the source's
  \<^verbatim>\<open>.length\<close>. Every real code unit is below 65536; the theorems below hold for all lists.
\<close>

type_synonym jsstring = "nat list"

text \<open>
  A number of the source is an integer or NaN. \<^verbatim>\<open>parseInt\<close> is the only producer of NaN here.
  Integers are exact in the source up to \<open>2^53\<close>; the parser reads at most four digits.
\<close>

datatype jsnum = NaN | Num int

text \<open>The only exception the parser's operations can raise: a property read on \<^verbatim>\<open>undefined\<close>.\<close>

datatype error = TypeError

definition ascii :: "string \<Rightarrow> jsstring" where
  "ascii cs = map of_char cs"

text \<open>The non-ASCII characters that occur in the source file, by code unit.\<close>

abbreviation zh1 :: nat where "zh1 \<equiv> 19968"   \<comment> \<open>U+4E00, one\<close>
abbreviation zh2 :: nat where "zh2 \<equiv> 20108"   \<comment> \<open>U+4E8C, two\<close>
abbreviation zh3 :: nat where "zh3 \<equiv> 19977"   \<comment> \<open>U+4E09, three\<close>
abbreviation zh4 :: nat where "zh4 \<equiv> 22235"   \<comment> \<open>U+56DB, four\<close>
abbreviation zh5 :: nat where "zh5 \<equiv> 20116"   \<comment> \<open>U+4E94, five\<close>
abbreviation zh6 :: nat where "zh6 \<equiv> 20845"   \<comment> \<open>U+516D, six\<close>
abbreviation zh7 :: nat where "zh7 \<equiv> 19971"   \<comment> \<open>U+4E03, seven\<close>
abbreviation zh8 :: nat where "zh8 \<equiv> 20843"   \<comment> \<open>U+516B, eight\<close>
abbreviation zh9 :: nat where "zh9 \<equiv> 20061"   \<comment> \<open>U+4E5D, nine\<close>
abbreviation zh10 :: nat where "zh10 \<equiv> 21313"  \<comment> \<open>U+5341, ten\<close>
abbreviation zhDi :: nat where "zhDi \<equiv> 31532"  \<comment> \<open>U+7B2C, ordinal prefix\<close>
abbreviation zhJi :: nat where "zhJi \<equiv> 23395"  \<comment> \<open>U+5B63, season\<close>
abbreviation zhBu :: nat where "zhBu \<equiv> 37096"  \<comment> \<open>U+90E8, part\<close>
abbreviation middot :: nat where "middot \<equiv> 183"  \<comment> \<open>U+00B7, middle dot\<close>

subsection \<open>Character classes of the regular expressions\<close>

definition is_digit :: "nat \<Rightarrow> bool" where   \<comment> \<open>\<^verbatim>\<open>\d\<close>\<close>
  "is_digit c = (48 \<le> c \<and> c \<le> 57)"

definition is_word :: "nat \<Rightarrow> bool" where   \<comment> \<open>\<^verbatim>\<open>\w\<close>, which decides \<^verbatim>\<open>\b\<close>\<close>
  "is_word c = ((48 \<le> c \<and> c \<le> 57) \<or> (65 \<le> c \<and> c \<le> 90) \<or> c = 95 \<or> (97 \<le> c \<and> c \<le> 122))"

text \<open>
  \<^verbatim>\<open>\s\<close>, and the characters \<^verbatim>\<open>trim\<close> and \<^verbatim>\<open>parseInt\<close> strip: the language's white space
  (tab, vertical tab, form feed, space, no-break space, the byte order mark and the Unicode
  space separators) and its line terminators (line feed, carriage return, U+2028, U+2029).
\<close>

definition is_space :: "nat \<Rightarrow> bool" where
  "is_space c = ((9 \<le> c \<and> c \<le> 13) \<or> c = 32 \<or> c = 160 \<or> c = 5760 \<or> (8192 \<le> c \<and> c \<le> 8202)
      \<or> c = 8232 \<or> c = 8233 \<or> c = 8239 \<or> c = 8287 \<or> c = 12288 \<or> c = 65279)"

definition is_S :: "nat \<Rightarrow> bool" where   \<comment> \<open>\<^verbatim>\<open>[Ss]\<close>\<close>
  "is_S c = (c = 83 \<or> c = 115)"

definition is_zh_num :: "nat \<Rightarrow> bool" where   \<comment> \<open>the class of the Chinese rules: the ten numerals and \<^verbatim>\<open>\d\<close>\<close>
  "is_zh_num c = (c \<in> set [zh1, zh2, zh3, zh4, zh5, zh6, zh7, zh8, zh9, zh10] \<or> is_digit c)"

definition is_trailer :: "nat \<Rightarrow> bool" where   \<comment> \<open>middle dot, hyphen, underscore, \<^verbatim>\<open>\s\<close>\<close>
  "is_trailer c = (c = middot \<or> c = 45 \<or> c = 95 \<or> is_space c)"

subsection \<open>String operations\<close>

definition substring :: "jsstring \<Rightarrow> nat \<Rightarrow> nat \<Rightarrow> jsstring" where
  "substring s a b =
     (let a' = min a (length s); b' = min b (length s); lo = min a' b'; hi = max a' b'
      in take (hi - lo) (drop lo s))"

definition startsWith :: "jsstring \<Rightarrow> jsstring \<Rightarrow> bool" where
  "startsWith s p = (take (length p) s = p)"

definition endsWith :: "jsstring \<Rightarrow> jsstring \<Rightarrow> bool" where
  "endsWith s p = (length p \<le> length s \<and> drop (length s - length p) s = p)"

definition indexOf :: "jsstring \<Rightarrow> nat \<Rightarrow> nat option" where   \<comment> \<open>\<open>None\<close> is the source's -1\<close>
  "indexOf s c = (if c \<in> set s then Some (length (takeWhile (\<lambda>x. x \<noteq> c) s)) else None)"

definition trim :: "jsstring \<Rightarrow> jsstring" where
  "trim s = rev (dropWhile is_space (rev (dropWhile is_space s)))"

subsection \<open>parseInt with radix 10\<close>

definition digits_val :: "jsstring \<Rightarrow> int" where
  "digits_val ds = foldl (\<lambda>a c. 10 * a + (int c - 48)) 0 ds"

definition parseInt :: "jsstring \<Rightarrow> jsnum" where
  "parseInt s =
     (let t = dropWhile is_space s;
          neg = (t \<noteq> [] \<and> hd t = 45);
          u = (if t \<noteq> [] \<and> (hd t = 45 \<or> hd t = 43) then tl t else t);
          ds = takeWhile is_digit u
      in if ds = [] then NaN else Num (if neg then - digits_val ds else digits_val ds))"

text \<open>\<^verbatim>\<open>parseInt\<close> applied to a capture group that did not take part in the match reads
  the string \<^verbatim>\<open>undefined\<close>, which has no digits.\<close>

definition parseInt_opt :: "jsstring option \<Rightarrow> jsnum" where
  "parseInt_opt g = (case g of None \<Rightarrow> NaN | Some s \<Rightarrow> parseInt s)"

definition truthy :: "jsnum \<Rightarrow> bool" where
  "truthy v = (case v of NaN \<Rightarrow> False | Num n \<Rightarrow> n \<noteq> 0)"

definition num_or :: "jsnum \<Rightarrow> jsnum \<Rightarrow> jsnum" where   \<comment> \<open>\<^verbatim>\<open>a || b\<close> on numbers\<close>
  "num_or a b = (if truthy a then a else b)"

definition lookup_or :: "int option \<Rightarrow> jsnum \<Rightarrow> jsnum" where   \<comment> \<open>\<^verbatim>\<open>table[k] || b\<close>; a missing key is \<^verbatim>\<open>undefined\<close>\<close>
  "lookup_or v b = (case v of None \<Rightarrow> b | Some n \<Rightarrow> num_or (Num n) b)"

fun num_add :: "jsnum \<Rightarrow> jsnum \<Rightarrow> jsnum" where
  "num_add (Num a) (Num b) = Num (a + b)"
| "num_add _ _ = NaN"

fun num_mul :: "jsnum \<Rightarrow> jsnum \<Rightarrow> jsnum" where
  "num_mul (Num a) (Num b) = Num (a * b)"
| "num_mul _ _ = NaN"

section \<open>The regular expressions\<close>

text \<open>
  The patterns of the source are built from literal characters, character classes, greedy
  bounded repetition of a class, one capture group, word boundaries and the two anchors.
  \<open>Rep lo hi p\<close> is \<^verbatim>\<open>p{lo,hi}\<close>, with \<open>hi = None\<close> for \<^verbatim>\<open>+\<close> and \<^verbatim>\<open>*\<close>.
\<close>

datatype re =
    Eps
  | Lit nat
  | Cls "nat \<Rightarrow> bool"
  | Rep nat "nat option" "nat \<Rightarrow> bool"
  | Cat re re
  | Grp re
  | WordB
  | Bol
  | Eol

record regexp =
  pat :: re
  icase :: bool    \<comment> \<open>flag \<^verbatim>\<open>i\<close>\<close>
  global :: bool   \<comment> \<open>flag \<^verbatim>\<open>g\<close>\<close>

fun seq :: "re list \<Rightarrow> re" where
  "seq [] = Eps"
| "seq [r] = r"
| "seq (r # rs) = Cat r (seq rs)"

definition lits :: "string \<Rightarrow> re" where
  "lits cs = seq (map Lit (ascii cs))"

text \<open>
  Case-insensitive comparison without the \<^verbatim>\<open>u\<close> flag canonicalises both characters with
  \<^verbatim>\<open>toUpperCase\<close>, and leaves a non-ASCII character alone when its upper case would be
  ASCII. For an ASCII pattern character this is comparison of the ASCII upper cases.
  The classes \<^verbatim>\<open>\d\<close> and \<^verbatim>\<open>\s\<close> and the word boundary are the same with and without the flag.
\<close>

definition canon :: "nat \<Rightarrow> nat" where
  "canon c = (if 97 \<le> c \<and> c \<le> 122 then c - 32 else c)"

definition lit_eq :: "bool \<Rightarrow> nat \<Rightarrow> nat \<Rightarrow> bool" where
  "lit_eq ic a c = (if ic then canon a = canon c else a = c)"

text \<open>
  The backtracking matcher. A state is the position reached and the span of group 1;
  \<open>bt ic r s st\<close> lists, in the order in which backtracking tries them, the states in
  which \<open>r\<close> can end when started in \<open>st\<close>. The head of the list is the match the engine
  reports. Greedy repetition tries the longest run first.
\<close>

type_synonym mstate = "nat \<times> (nat \<times> nat) option"

fun bt :: "bool \<Rightarrow> re \<Rightarrow> jsstring \<Rightarrow> mstate \<Rightarrow> mstate list" where
  "bt ic Eps s st = [st]"
| "bt ic (Lit a) s (i, g) = (if i < length s \<and> lit_eq ic a (s ! i) then [(Suc i, g)] else [])"
| "bt ic (Cls p) s (i, g) = (if i < length s \<and> p (s ! i) then [(Suc i, g)] else [])"
| "bt ic (Rep lo hi p) s (i, g) =
     (let n = length (takeWhile p (drop i s));
          k = (case hi of None \<Rightarrow> n | Some h \<Rightarrow> min n h)
      in map (\<lambda>j. (i + j, g)) (rev [lo..<Suc k]))"
| "bt ic (Cat a b) s st = concat (map (bt ic b s) (bt ic a s st))"
| "bt ic (Grp a) s (i, g) = map (\<lambda>(j, _). (j, Some (i, j))) (bt ic a s (i, g))"
| "bt ic WordB s (i, g) =
     (if (0 < i \<and> i \<le> length s \<and> is_word (s ! (i - 1))) \<noteq> (i < length s \<and> is_word (s ! i))
      then [(i, g)] else [])"
| "bt ic Bol s (i, g) = (if i = 0 then [(i, g)] else [])"
| "bt ic Eol s (i, g) = (if i = length s then [(i, g)] else [])"

text \<open>The match array of the source: \<^verbatim>\<open>index\<close>, \<^verbatim>\<open>[0]\<close> and \<^verbatim>\<open>[1]\<close>.\<close>

record rmatch =
  m_index :: nat
  m_0 :: jsstring
  m_1 :: "jsstring option"

definition match_at :: "regexp \<Rightarrow> jsstring \<Rightarrow> nat \<Rightarrow> rmatch option" where
  "match_at rx s i =
     (case bt (icase rx) (pat rx) s (i, None) of
        [] \<Rightarrow> None
      | (j, g) # _ \<Rightarrow>
          Some \<lparr>m_index = i, m_0 = substring s i j,
                m_1 = map_option (\<lambda>(a, b). substring s a b) g\<rparr>)"

text \<open>The engine's search: the first start position from \<open>k\<close> on, up to the end of the
  string, at which the pattern matches.\<close>

definition exec_from :: "regexp \<Rightarrow> jsstring \<Rightarrow> nat \<Rightarrow> rmatch option" where
  "exec_from rx s k =
     (case List.find (\<lambda>i. match_at rx s i \<noteq> None) [k..<Suc (length s)] of
        None \<Rightarrow> None
      | Some i \<Rightarrow> match_at rx s i)"

definition js_match :: "jsstring \<Rightarrow> regexp \<Rightarrow> rmatch option" where   \<comment> \<open>\<^verbatim>\<open>s.match(rx)\<close>, \<open>rx\<close> not global\<close>
  "js_match s rx = exec_from rx s 0"

definition test :: "regexp \<Rightarrow> jsstring \<Rightarrow> bool" where   \<comment> \<open>\<^verbatim>\<open>rx.test(s)\<close>\<close>
  "test rx s = (exec_from rx s 0 \<noteq> None)"

definition m_end :: "rmatch \<Rightarrow> nat" where
  "m_end m = m_index m + length (m_0 m)"

text \<open>
  All matches of a global pattern, as \<^verbatim>\<open>replace\<close> collects them: the search resumes
  at the end of the previous match, one further after an empty match.
\<close>

function all_matches :: "regexp \<Rightarrow> jsstring \<Rightarrow> nat \<Rightarrow> rmatch list" where
  "all_matches rx s k =
     (case exec_from rx s k of
        None \<Rightarrow> []
      | Some m \<Rightarrow> m # all_matches rx s (if m_0 m = [] then Suc (m_end m) else m_end m))"
  by pat_completeness auto
termination
proof (relation "measure (\<lambda>(rx, s, k). Suc (length s) - k)")
  show "wf (measure (\<lambda>(rx, s, k). Suc (length s) - k))" by simp
next
  fix rx s k m
  assume "exec_from rx s k = Some m"
  then obtain i where f: "List.find (\<lambda>i. match_at rx s i \<noteq> None) [k..<Suc (length s)] = Some i"
    and mi: "match_at rx s i = Some m"
    by (auto simp: exec_from_def split: option.splits)
  from f obtain n where "n < length [k..<Suc (length s)]" "i = [k..<Suc (length s)] ! n"
    unfolding find_Some_iff by blast
  then have "k \<le> i" "i \<le> length s" by (simp_all del: upt_Suc)
  moreover from mi have "m_index m = i"
    by (auto simp: match_at_def split: list.splits)
  ultimately show "((rx, s, if m_0 m = [] then Suc (m_end m) else m_end m), (rx, s, k))
      \<in> measure (\<lambda>(rx, s, k). Suc (length s) - k)"
    by (cases "m_0 m") (auto simp: m_end_def)
qed

text \<open>The result of a replacement: the text between the matches, with \<open>rep\<close> for each match.\<close>

fun subst :: "jsstring \<Rightarrow> jsstring \<Rightarrow> nat \<Rightarrow> rmatch list \<Rightarrow> jsstring" where
  "subst s rep p [] = drop p s"
| "subst s rep p (m # ms) =
     (if p \<le> m_index m
      then substring s p (m_index m) @ rep @ subst s rep (m_end m) ms
      else subst s rep p ms)"

definition replace :: "jsstring \<Rightarrow> regexp \<Rightarrow> jsstring \<Rightarrow> jsstring" where   \<comment> \<open>\<^verbatim>\<open>s.replace(rx, rep)\<close>\<close>
  "replace s rx rep =
     (if global rx then subst s rep 0 (all_matches rx s 0)
      else (case exec_from rx s 0 of
              None \<Rightarrow> s
            | Some m \<Rightarrow> subst s rep 0 [m]))"

section \<open>The numeral converter\<close>

definition re_all_digits :: regexp where   \<comment> \<open>\<^verbatim>\<open>/^\d+$/\<close>\<close>
  "re_all_digits = \<lparr>pat = seq [Bol, Rep 1 None is_digit, Eol], icase = False, global = False\<rparr>"

text \<open>
  The table \<^verbatim>\<open>chineseNumbers\<close>. Its own keys are modelled; the keys an object literal
  inherits have seven or more ASCII characters, and the converter is called with captures
  of at most two characters.
\<close>

definition chineseNumbers :: "jsstring \<rightharpoonup> int" where
  "chineseNumbers = map_of
     [([zh1], 1), ([zh2], 2), ([zh3], 3), ([zh4], 4), ([zh5], 5),
      ([zh6], 6), ([zh7], 7), ([zh8], 8), ([zh9], 9), ([zh10], 10)]"

definition chineseNumberToInt :: "jsstring \<Rightarrow> jsnum" where
  "chineseNumberToInt str =
     (if test re_all_digits str then parseInt str
      else if str = [zh10] then Num 10
      else if startsWith str [zh10] then
        (let unit = substring str 1 (length str)
         in num_add (Num 10) (lookup_or (chineseNumbers unit) (Num 0)))
      else if endsWith str [zh10] then
        (let tens = substring str 0 (length str - 1)
         in num_mul (lookup_or (chineseNumbers tens) (Num 0)) (Num 10))
      else
        (case indexOf str zh10 of
           Some tenIndex \<Rightarrow>
             (let tens = substring str 0 tenIndex;
                  units = substring str (tenIndex + 1) (length str)
              in num_add (num_mul (lookup_or (chineseNumbers tens) (Num 0)) (Num 10))
                         (lookup_or (chineseNumbers units) (Num 0)))
         | None \<Rightarrow> lookup_or (chineseNumbers str) (num_or (parseInt str) (Num 1))))"


text \<open>The Chinese digit for a number from 1 to 9, to state what the converter computes.\<close>

definition zh_digit :: "nat \<Rightarrow> nat" where
  "zh_digit n = [zh1, zh2, zh3, zh4, zh5, zh6, zh7, zh8, zh9] ! (n - 1)"

section \<open>The season parser\<close>

record SeasonInfo =
  cleanTitle :: jsstring
  seasonNumber :: "jsnum option"   \<comment> \<open>\<open>None\<close> is \<^verbatim>\<open>null\<close>\<close>
  year :: "jsnum option"
  originalTitle :: jsstring

record pattern =
  regex :: regexp
  extractor :: "rmatch \<Rightarrow> error + jsnum option"

definition plain :: "re \<Rightarrow> regexp" where
  "plain r = \<lparr>pat = r, icase = False, global = False\<rparr>"

definition re_S_digits :: regexp where   \<comment> \<open>\<^verbatim>\<open>/[Ss](\d{1,2})/\<close>\<close>
  "re_S_digits = plain (seq [Cls is_S, Grp (Rep 1 (Some 2) is_digit)])"

text \<open>
  The extractors. \<^verbatim>\<open>match[1].match(...)\<close> and \<^verbatim>\<open>str.startsWith\<close> raise a TypeError when
  \<^verbatim>\<open>match[1]\<close> is \<^verbatim>\<open>undefined\<close>; \<^verbatim>\<open>parseInt(undefined, 10)\<close> is NaN.
\<close>

definition extract_bracket_S :: "rmatch \<Rightarrow> error + jsnum option" where
  "extract_bracket_S match =
     (case m_1 match of
        None \<Rightarrow> Inl TypeError
      | Some g \<Rightarrow>
          (case js_match g re_S_digits of
             Some seasonMatch \<Rightarrow> Inr (Some (parseInt_opt (m_1 seasonMatch)))
           | None \<Rightarrow> Inr None))"

definition extract_int :: "rmatch \<Rightarrow> error + jsnum option" where
  "extract_int match = Inr (Some (parseInt_opt (m_1 match)))"

definition extract_chinese :: "rmatch \<Rightarrow> error + jsnum option" where
  "extract_chinese match =
     (case m_1 match of
        None \<Rightarrow> Inl TypeError
      | Some g \<Rightarrow> Inr (Some (chineseNumberToInt g)))"

definition re_season_1 :: regexp where   \<comment> \<open>\<^verbatim>\<open>/\[([Ss]\d{1,2})\]/\<close>\<close>
  "re_season_1 = plain (seq [Lit 91, Grp (seq [Cls is_S, Rep 1 (Some 2) is_digit]), Lit 93])"

definition re_season_2 :: regexp where   \<comment> \<open>\<^verbatim>\<open>/\b[Ss](\d{1,2})\b/\<close>\<close>
  "re_season_2 = plain (seq [WordB, Cls is_S, Grp (Rep 1 (Some 2) is_digit), WordB])"

definition re_season_3 :: regexp where   \<comment> \<open>\<^verbatim>\<open>/\[Season\s+(\d{1,2})\]/i\<close>\<close>
  "re_season_3 =
     \<lparr>pat = seq [Lit 91, lits ''Season'', Rep 1 None is_space, Grp (Rep 1 (Some 2) is_digit), Lit 93],
      icase = True, global = False\<rparr>"

definition re_season_4 :: regexp where   \<comment> \<open>\<^verbatim>\<open>/\bSeason\s+(\d{1,2})\b/i\<close>\<close>
  "re_season_4 =
     \<lparr>pat = seq [WordB, lits ''Season'', Rep 1 None is_space, Grp (Rep 1 (Some 2) is_digit), WordB],
      icase = True, global = False\<rparr>"

definition re_season_5 :: regexp where   \<comment> \<open>bracketed ordinal, numeral of one or two characters, season\<close>
  "re_season_5 = plain (seq [Lit 91, Lit zhDi, Grp (Rep 1 (Some 2) is_zh_num), Lit zhJi, Lit 93])"

definition re_season_6 :: regexp where   \<comment> \<open>the same without brackets\<close>
  "re_season_6 = plain (seq [Lit zhDi, Grp (Rep 1 (Some 2) is_zh_num), Lit zhJi])"

definition re_season_7 :: regexp where   \<comment> \<open>bracketed ordinal, numeral, part\<close>
  "re_season_7 = plain (seq [Lit 91, Lit zhDi, Grp (Rep 1 (Some 2) is_zh_num), Lit zhBu, Lit 93])"

definition re_season_8 :: regexp where   \<comment> \<open>the same without brackets\<close>
  "re_season_8 = plain (seq [Lit zhDi, Grp (Rep 1 (Some 2) is_zh_num), Lit zhBu])"

definition patterns :: "pattern list" where
  "patterns =
     [\<lparr>regex = re_season_1, extractor = extract_bracket_S\<rparr>,
      \<lparr>regex = re_season_2, extractor = extract_int\<rparr>,
      \<lparr>regex = re_season_3, extractor = extract_int\<rparr>,
      \<lparr>regex = re_season_4, extractor = extract_int\<rparr>,
      \<lparr>regex = re_season_5, extractor = extract_chinese\<rparr>,
      \<lparr>regex = re_season_6, extractor = extract_chinese\<rparr>,
      \<lparr>regex = re_season_7, extractor = extract_chinese\<rparr>,
      \<lparr>regex = re_season_8, extractor = extract_chinese\<rparr>]"

text \<open>The loop over the season patterns: the first pattern that matches and whose
  extractor does not return \<^verbatim>\<open>null\<close> sets the season and ends the loop.\<close>

fun season_loop :: "pattern list \<Rightarrow> jsstring \<Rightarrow> error + (jsnum option \<times> jsstring)" where
  "season_loop [] title = Inr (None, title)"
| "season_loop (p # ps) title =
     (case js_match title (regex p) of
        None \<Rightarrow> season_loop ps title
      | Some match \<Rightarrow>
          (case extractor p match of
             Inl e \<Rightarrow> Inl e
           | Inr None \<Rightarrow> season_loop ps title
           | Inr (Some extracted) \<Rightarrow>
               Inr (Some extracted, trim (replace title (regex p) []))))"

definition re_year_1 :: regexp where   \<comment> \<open>\<^verbatim>\<open>/\[(\d{4})\]/\<close>\<close>
  "re_year_1 = plain (seq [Lit 91, Grp (Rep 4 (Some 4) is_digit), Lit 93])"

definition re_year_2 :: regexp where   \<comment> \<open>\<^verbatim>\<open>/\((\d{4})\)/\<close>\<close>
  "re_year_2 = plain (seq [Lit 40, Grp (Rep 4 (Some 4) is_digit), Lit 41])"

definition re_year_3 :: regexp where   \<comment> \<open>\<^verbatim>\<open>/\b(\d{4})\b/\<close>\<close>
  "re_year_3 = plain (seq [WordB, Grp (Rep 4 (Some 4) is_digit), WordB])"

definition yearPatterns :: "regexp list" where
  "yearPatterns = [re_year_1, re_year_2, re_year_3]"

fun num_ge :: "jsnum \<Rightarrow> int \<Rightarrow> bool" where   \<comment> \<open>a comparison with NaN is false\<close>
  "num_ge (Num a) b = (a \<ge> b)"
| "num_ge NaN b = False"

fun num_le :: "jsnum \<Rightarrow> int \<Rightarrow> bool" where
  "num_le (Num a) b = (a \<le> b)"
| "num_le NaN b = False"

fun year_loop :: "regexp list \<Rightarrow> jsstring \<Rightarrow> jsnum option \<times> jsstring" where
  "year_loop [] title = (None, title)"
| "year_loop (yearPattern # yps) title =
     (case js_match title yearPattern of
        None \<Rightarrow> year_loop yps title
      | Some yearMatch \<Rightarrow>
          (let extractedYear = parseInt_opt (m_1 yearMatch)
           in if num_ge extractedYear 1900 \<and> num_le extractedYear 2100
              then (Some extractedYear, trim (replace title yearPattern []))
              else year_loop yps title))"

definition re_underscore :: regexp where   \<comment> \<open>\<^verbatim>\<open>/_/g\<close>\<close>
  "re_underscore = \<lparr>pat = Lit 95, icase = False, global = True\<rparr>"

definition re_empty_brackets :: regexp where   \<comment> \<open>\<^verbatim>\<open>/\[\s*\]/g\<close>\<close>
  "re_empty_brackets = \<lparr>pat = seq [Lit 91, Rep 0 None is_space, Lit 93], icase = False, global = True\<rparr>"

definition re_empty_parens :: regexp where   \<comment> \<open>\<^verbatim>\<open>/\(\s*\)/g\<close>\<close>
  "re_empty_parens = \<lparr>pat = seq [Lit 40, Rep 0 None is_space, Lit 41], icase = False, global = True\<rparr>"

definition re_spaces :: regexp where   \<comment> \<open>\<^verbatim>\<open>/\s+/g\<close>\<close>
  "re_spaces = \<lparr>pat = Rep 1 None is_space, icase = False, global = True\<rparr>"

definition re_trailer :: regexp where   \<comment> \<open>a run of middle dots, hyphens, underscores and \<^verbatim>\<open>\s\<close> before \<^verbatim>\<open>$\<close>\<close>
  "re_trailer = plain (seq [Rep 1 None is_trailer, Eol])"

definition cleaner :: "jsstring \<Rightarrow> jsstring" where
  "cleaner title =
     trim (replace (replace (replace (replace title re_empty_brackets [])
                      re_empty_parens []) re_spaces [32]) re_trailer [])"

definition parseSeasonFromTitle :: "jsstring \<Rightarrow> error + SeasonInfo" where
  "parseSeasonFromTitle title =
     (case season_loop patterns (replace title re_underscore [32]) of
        Inl e \<Rightarrow> Inl e
      | Inr (season, reduced) \<Rightarrow>
          (case year_loop yearPatterns reduced of
             (yr, reduced') \<Rightarrow>
               Inr \<lparr>cleanTitle = cleaner reduced', seasonNumber = season, year = yr,
                    originalTitle = title\<rparr>))"

text \<open>What survives of a character in the clean title: an underscore or a white-space
  character can come out as a space, every other character as itself.\<close>

definition blank :: "nat \<Rightarrow> nat" where
  "blank c = (if c = 95 \<or> is_space c then 32 else c)"

text \<open>Parsing a title again means parsing the clean title of the previous parse.\<close>

definition reclean :: "jsstring \<Rightarrow> jsstring" where
  "reclean t = (case parseSeasonFromTitle t of Inr r \<Rightarrow> cleanTitle r | Inl e \<Rightarrow> t)"

text \<open>The title after the first step of the parser, which replaces underscores by spaces.\<close>

abbreviation normalized :: "jsstring \<Rightarrow> jsstring" where
  "normalized t \<equiv> replace t re_underscore [32]"

section \<open>Facts about the matcher\<close>

lemma bt_Lit_iff: "(j, h) \<in> set (bt ic (Lit a) s (i, g)) \<longleftrightarrow> i < length s \<and> lit_eq ic a (s ! i) \<and> j = Suc i \<and> h = g"
  by auto

lemma bt_Cls_iff: "(j, h) \<in> set (bt ic (Cls p) s (i, g)) \<longleftrightarrow> i < length s \<and> p (s ! i) \<and> j = Suc i \<and> h = g"
  by auto

lemma bt_Rep_iff:
  "(j, h) \<in> set (bt ic (Rep lo hi p) s (i, g)) \<longleftrightarrow>
     h = g \<and> i + lo \<le> j \<and> j \<le> i + length (takeWhile p (drop i s)) \<and>
     (case hi of None \<Rightarrow> True | Some m \<Rightarrow> j \<le> i + m)"
proof -
  have "\<And>k. (j, h) \<in> (\<lambda>n. (i + n, g)) ` {lo..<Suc k} \<longleftrightarrow> h = g \<and> i + lo \<le> j \<and> j \<le> i + k"
  proof -
    fix k show "(j, h) \<in> (\<lambda>n. (i + n, g)) ` {lo..<Suc k} \<longleftrightarrow> h = g \<and> i + lo \<le> j \<and> j \<le> i + k"
    proof
      assume "(j, h) \<in> (\<lambda>n. (i + n, g)) ` {lo..<Suc k}"
      then show "h = g \<and> i + lo \<le> j \<and> j \<le> i + k" by auto
    next
      assume a: "h = g \<and> i + lo \<le> j \<and> j \<le> i + k"
      then have "j - i \<in> {lo..<Suc k}" "(j, h) = (i + (j - i), g)" by auto
      then show "(j, h) \<in> (\<lambda>n. (i + n, g)) ` {lo..<Suc k}" by (rule_tac image_eqI)
    qed
  qed
  then show ?thesis
    by (cases hi) (auto simp: Let_def simp del: upt_Suc)
qed

lemma bt_Cat_iff:
  "(j, h) \<in> set (bt ic (Cat a b) s (i, g)) \<longleftrightarrow>
     (\<exists>k e. (k, e) \<in> set (bt ic a s (i, g)) \<and> (j, h) \<in> set (bt ic b s (k, e)))"
  by auto

lemma bt_Grp_iff: "(j, h) \<in> set (bt ic (Grp a) s (i, g)) \<longleftrightarrow> h = Some (i, j) \<and> (\<exists>h'. (j, h') \<in> set (bt ic a s (i, g)))"
proof
  assume "(j, h) \<in> set (bt ic (Grp a) s (i, g))"
  then show "h = Some (i, j) \<and> (\<exists>h'. (j, h') \<in> set (bt ic a s (i, g)))" by auto
next
  assume a: "h = Some (i, j) \<and> (\<exists>h'. (j, h') \<in> set (bt ic a s (i, g)))"
  then obtain h' where "(j, h') \<in> set (bt ic a s (i, g))" by blast
  then have "(\<lambda>(j, _). (j, Some (i, j))) (j, h') \<in> (\<lambda>(j, _). (j, Some (i, j))) ` set (bt ic a s (i, g))"
    by (rule imageI)
  with a show "(j, h) \<in> set (bt ic (Grp a) s (i, g))" by simp
qed

lemma bt_WordB_iff: "(j, h) \<in> set (bt ic WordB s (i, g)) \<longleftrightarrow>
   j = i \<and> h = g \<and> ((0 < i \<and> i \<le> length s \<and> is_word (s ! (i - 1))) \<noteq> (i < length s \<and> is_word (s ! i)))"
  by auto

lemma bt_Eol_iff: "(j, h) \<in> set (bt ic Eol s (i, g)) \<longleftrightarrow> j = i \<and> h = g \<and> i = length s"
  by auto

lemma bt_Bol_iff: "(j, h) \<in> set (bt ic Bol s (i, g)) \<longleftrightarrow> j = i \<and> h = g \<and> i = 0"
  by auto

lemma bt_Eps_iff: "st' \<in> set (bt ic Eps s st) \<longleftrightarrow> st' = st"
  by simp

lemmas bt_iff = bt_Eps_iff bt_Lit_iff bt_Cls_iff bt_Rep_iff bt_Cat_iff bt_Grp_iff bt_WordB_iff bt_Eol_iff bt_Bol_iff

declare bt.simps [simp del]

declare all_matches.simps [simp del]

lemma bt_bounds: "(j, h) \<in> set (bt ic r s (i, g)) \<Longrightarrow> i \<le> length s \<Longrightarrow> i \<le> j \<and> j \<le> length s"
proof (induction r arbitrary: i g j h)
  case (Rep lo hi p)
  have "length (takeWhile p (drop i s)) \<le> length (drop i s)" by (rule length_takeWhile_le)
  with Rep show ?case by (auto simp: bt_Rep_iff)
next
  case (Cat a b)
  from Cat.prems(1) obtain k e where 1: "(k, e) \<in> set (bt ic a s (i, g))" and 2: "(j, h) \<in> set (bt ic b s (k, e))"
    by (auto simp: bt_Cat_iff)
  from Cat.IH(1)[OF 1 Cat.prems(2)] have "i \<le> k" "k \<le> length s" by auto
  with Cat.IH(2)[OF 2] show ?case by auto
next
  case (Grp a)
  then show ?case by (auto simp: bt_Grp_iff)
qed (auto simp: bt_iff)

lemma match_atD:
  "match_at rx s i = Some m \<Longrightarrow>
     \<exists>j g. (j, g) \<in> set (bt (icase rx) (pat rx) s (i, None)) \<and>
       m = \<lparr>m_index = i, m_0 = substring s i j, m_1 = map_option (\<lambda>(a, b). substring s a b) g\<rparr>"
  by (auto simp: match_at_def split: list.splits)

lemma match_at_None_iff: "match_at rx s i = None \<longleftrightarrow> bt (icase rx) (pat rx) s (i, None) = []"
  by (auto simp: match_at_def split: list.splits)

lemma substring_take_drop: "a \<le> b \<Longrightarrow> b \<le> length s \<Longrightarrow> substring s a b = take (b - a) (drop a s)"
  by (simp add: substring_def Let_def min_def max_def)

lemma match_span:
  assumes "match_at rx s i = Some m" "i \<le> length s"
  shows "m_index m = i \<and> i \<le> m_end m \<and> m_end m \<le> length s \<and> m_0 m = take (m_end m - i) (drop i s)"
proof -
  from match_atD[OF assms(1)] obtain j g where
    1: "(j, g) \<in> set (bt (icase rx) (pat rx) s (i, None))" and
    2: "m = \<lparr>m_index = i, m_0 = substring s i j, m_1 = map_option (\<lambda>(a, b). substring s a b) g\<rparr>"
    by blast
  from bt_bounds[OF 1 assms(2)] have b: "i \<le> j" "j \<le> length s" by auto
  then have "substring s i j = take (j - i) (drop i s)" by (rule substring_take_drop)
  with 2 b show ?thesis by (simp add: m_end_def)
qed

lemma exec_fromD:
  assumes "exec_from rx s k = Some m"
  shows "k \<le> m_index m \<and> m_index m \<le> length s \<and> match_at rx s (m_index m) = Some m \<and>
         (\<forall>i. k \<le> i \<and> i < m_index m \<longrightarrow> match_at rx s i = None)"
proof -
  from assms obtain i where f: "List.find (\<lambda>i. match_at rx s i \<noteq> None) [k..<Suc (length s)] = Some i"
    and mi: "match_at rx s i = Some m"
    by (auto simp: exec_from_def split: option.splits)
  from mi have ix: "m_index m = i" by (auto simp: match_at_def split: list.splits)
  from f obtain n where n: "n < length [k..<Suc (length s)]" "i = [k..<Suc (length s)] ! n"
     "\<forall>j<n. \<not> (match_at rx s ([k..<Suc (length s)] ! j) \<noteq> None)"
    unfolding find_Some_iff by blast
  from n(1) have n1: "k + n < Suc (length s)" by (simp del: upt_Suc)
  with n(2) have i: "i = k + n" by (simp del: upt_Suc)
  have "\<forall>i'. k \<le> i' \<and> i' < i \<longrightarrow> match_at rx s i' = None"
  proof (intro allI impI)
    fix i' assume a: "k \<le> i' \<and> i' < i"
    then have "i' - k < n" using i by auto
    with n(3) have "match_at rx s ([k..<Suc (length s)] ! (i' - k)) = None" by blast
    moreover have "[k..<Suc (length s)] ! (i' - k) = i'" using a i n1 by (simp del: upt_Suc)
    ultimately show "match_at rx s i' = None" by simp
  qed
  with ix mi i n1 show ?thesis by auto
qed

lemma exec_from_NoneD:
  assumes "exec_from rx s k = None" "k \<le> i" "i \<le> length s"
  shows "match_at rx s i = None"
proof -
  have "List.find (\<lambda>i. match_at rx s i \<noteq> None) [k..<Suc (length s)] = None"
  proof (cases "List.find (\<lambda>i. match_at rx s i \<noteq> None) [k..<Suc (length s)]")
    case None
    then show ?thesis .
  next
    case (Some j)
    then have "match_at rx s j \<noteq> None" unfolding find_Some_iff by blast
    with Some assms(1) show ?thesis by (simp add: exec_from_def)
  qed
  then have "\<not> (\<exists>x. x \<in> set [k..<Suc (length s)] \<and> match_at rx s x \<noteq> None)"
    unfolding find_None_iff .
  moreover have "i \<in> set [k..<Suc (length s)]" using assms(2,3) by (simp del: upt_Suc)
  ultimately show ?thesis by blast
qed

lemma exec_from_span:
  assumes "exec_from rx s k = Some m"
  shows "k \<le> m_index m \<and> m_index m \<le> m_end m \<and> m_end m \<le> length s \<and>
         m_0 m = take (m_end m - m_index m) (drop (m_index m) s)"
  using exec_fromD[OF assms] match_span[of rx s "m_index m" m] by auto

lemma exec_from_None_iff:
  "exec_from rx s k = None \<longleftrightarrow> (\<forall>i. k \<le> i \<and> i \<le> length s \<longrightarrow> match_at rx s i = None)"
proof
  assume "exec_from rx s k = None"
  then show "\<forall>i. k \<le> i \<and> i \<le> length s \<longrightarrow> match_at rx s i = None"
    using exec_from_NoneD by blast
next
  assume a: "\<forall>i. k \<le> i \<and> i \<le> length s \<longrightarrow> match_at rx s i = None"
  show "exec_from rx s k = None"
  proof (cases "exec_from rx s k")
    case None
    then show ?thesis .
  next
    case (Some m)
    from exec_fromD[OF this] a show ?thesis by auto
  qed
qed

lemma match_at_None_set:
  "match_at rx s i = None \<longleftrightarrow> (\<forall>j g. (j, g) \<notin> set (bt (icase rx) (pat rx) s (i, None)))"
  by (cases "bt (icase rx) (pat rx) s (i, None)") (auto simp: match_at_None_iff)

lemma takeWhile_full: "length (takeWhile p s) = length s \<longleftrightarrow> (\<forall>c\<in>set s. p c)"
  by (induction s) auto

lemma match_atI: "(j, g) \<in> set (bt (icase rx) (pat rx) s (i, None)) \<Longrightarrow> \<exists>m. match_at rx s i = Some m"
  using match_at_None_set[of rx s i] by (cases "match_at rx s i") auto

lemma exec_fromI: "match_at rx s i = Some m' \<Longrightarrow> k \<le> i \<Longrightarrow> i \<le> length s \<Longrightarrow> \<exists>m. exec_from rx s k = Some m"
  using exec_from_NoneD[of rx s k i] by (cases "exec_from rx s k") auto

lemma test_all_digits: "test re_all_digits s \<longleftrightarrow> s \<noteq> [] \<and> (\<forall>c\<in>set s. is_digit c)"
proof
  assume "test re_all_digits s"
  then obtain m where "exec_from re_all_digits s 0 = Some m" by (auto simp: test_def)
  from exec_fromD[OF this] have "match_at re_all_digits s (m_index m) = Some m" by simp
  from match_atD[OF this] have "1 \<le> length s \<and> length s \<le> length (takeWhile is_digit s)"
    by (auto simp: re_all_digits_def bt_iff)
  moreover have "length (takeWhile is_digit s) \<le> length s" by (rule length_takeWhile_le)
  ultimately have "s \<noteq> [] \<and> length (takeWhile is_digit s) = length s" by auto
  then show "s \<noteq> [] \<and> (\<forall>c\<in>set s. is_digit c)" by (simp add: takeWhile_full)
next
  assume a: "s \<noteq> [] \<and> (\<forall>c\<in>set s. is_digit c)"
  then have "length (takeWhile is_digit s) = length s" by (simp add: takeWhile_full)
  with a have "(length s, None) \<in> set (bt (icase re_all_digits) (pat re_all_digits) s (0, None))"
    by (cases s) (auto simp: re_all_digits_def bt_iff)
  from match_atI[OF this] obtain m' where "match_at re_all_digits s 0 = Some m'" by blast
  from exec_fromI[OF this, of 0] show "test re_all_digits s" by (auto simp: test_def)
qed

section \<open>Facts about the numeral converter\<close>

lemma zh_digit_cases: "t \<in> {1..9} \<Longrightarrow> t = 1 \<or> t = 2 \<or> t = 3 \<or> t = 4 \<or> t = 5 \<or> t = 6 \<or> t = 7 \<or> t = 8 \<or> t = (9::nat)"
  by auto

lemma zh_digit_facts:
  assumes "t \<in> {1..9}"
  shows "chineseNumbers [zh_digit t] = Some (int t)" "zh_digit t \<noteq> zh10" "\<not> is_digit (zh_digit t)"
  using zh_digit_cases[OF assms] by (auto simp: zh_digit_def chineseNumbers_def is_digit_def)

lemma chineseNumbers_Nil: "chineseNumbers [] = None"
  by (simp add: chineseNumbers_def)

lemma conv_single:
  assumes "chineseNumbers [a] = Some v" "v \<noteq> 0" "a \<noteq> zh10" "\<not> is_digit a"
  shows "chineseNumberToInt [a] = Num v"
  using assms
  by (simp add: chineseNumberToInt_def test_all_digits startsWith_def endsWith_def indexOf_def lookup_or_def num_or_def truthy_def)

lemma conv_ten: "chineseNumberToInt [zh10] = Num 10"
  by (simp add: chineseNumberToInt_def test_all_digits is_digit_def)

lemma conv_ten_unit:
  assumes "chineseNumbers [b] = Some u" "u \<noteq> 0"
  shows "chineseNumberToInt [zh10, b] = Num (10 + u)"
  using assms
  by (simp add: chineseNumberToInt_def test_all_digits is_digit_def startsWith_def substring_def lookup_or_def num_or_def truthy_def)

lemma conv_tens_ten:
  assumes "chineseNumbers [a] = Some v" "v \<noteq> 0" "a \<noteq> zh10" "\<not> is_digit a"
  shows "chineseNumberToInt [a, zh10] = Num (v * 10)"
  using assms
  by (simp add: chineseNumberToInt_def test_all_digits startsWith_def endsWith_def substring_def lookup_or_def num_or_def truthy_def)

lemma conv_tens_ten_unit:
  assumes "chineseNumbers [a] = Some v" "v \<noteq> 0" "a \<noteq> zh10" "\<not> is_digit a"
          "chineseNumbers [b] = Some u" "u \<noteq> 0" "b \<noteq> zh10"
  shows "chineseNumberToInt [a, zh10, b] = Num (v * 10 + u)"
  using assms
  by (simp add: chineseNumberToInt_def test_all_digits startsWith_def endsWith_def indexOf_def substring_def lookup_or_def num_or_def truthy_def)

lemma short_list_cases:
  assumes "length d \<le> 2"
  obtains "d = []" | x where "d = [x]" | x y where "d = [x, y]"
proof (cases d)
  case Nil
  then show ?thesis using that by simp
next
  case (Cons x xs)
  show ?thesis
  proof (cases xs)
    case Nil
    with Cons show ?thesis using that by simp
  next
    case (Cons y ys)
    with \<open>d = x # xs\<close> assms have "d = [x, y]" by simp
    then show ?thesis using that by simp
  qed
qed

lemma digits_val_range:
  assumes "length d \<le> 2" "\<forall>c\<in>set d. is_digit c"
  shows "0 \<le> digits_val d \<and> digits_val d \<le> 99"
  using assms(1)
proof (cases d rule: short_list_cases)
  case 1
  then show ?thesis by (simp add: digits_val_def)
next
  case (2 x)
  with assms(2) show ?thesis by (auto simp: digits_val_def is_digit_def)
next
  case (3 x y)
  with assms(2) show ?thesis by (auto simp: digits_val_def is_digit_def)
qed

lemma digit_not_space: "is_digit c \<Longrightarrow> \<not> is_space c \<and> c \<noteq> 45 \<and> c \<noteq> 43"
  by (auto simp: is_digit_def is_space_def)

lemma zh_num_not_space: "is_zh_num c \<Longrightarrow> \<not> is_space c \<and> c \<noteq> 45 \<and> c \<noteq> 43"
  by (auto simp: is_zh_num_def is_digit_def is_space_def)

lemma parseInt_plain:
  assumes "g = [] \<or> (\<not> is_space (hd g) \<and> hd g \<noteq> 45 \<and> hd g \<noteq> 43)"
  shows "parseInt g = (if takeWhile is_digit g = [] then NaN else Num (digits_val (takeWhile is_digit g)))"
  using assms by (cases g) (auto simp: parseInt_def Let_def)

lemma parseInt_digits:
  assumes "d \<noteq> []" "\<forall>c\<in>set d. is_digit c"
  shows "parseInt d = Num (digits_val d)"
proof -
  from assms have "\<not> is_space (hd d) \<and> hd d \<noteq> 45 \<and> hd d \<noteq> 43"
    using digit_not_space by (cases d) auto
  then have "parseInt d = (if takeWhile is_digit d = [] then NaN else Num (digits_val (takeWhile is_digit d)))"
    by (intro parseInt_plain) simp
  moreover have "takeWhile is_digit d = d" using assms(2) by (simp add: takeWhile_eq_all_conv)
  ultimately show ?thesis using assms(1) by simp
qed

lemma parseInt_zh_range:
  assumes "length g \<le> 2" "\<forall>c\<in>set g. is_zh_num c"
  shows "parseInt g = NaN \<or> (\<exists>v. parseInt g = Num v \<and> 0 \<le> v \<and> v \<le> 99)"
proof -
  have "g = [] \<or> (\<not> is_space (hd g) \<and> hd g \<noteq> 45 \<and> hd g \<noteq> 43)"
    using assms(2) zh_num_not_space by (cases g) auto
  then have p: "parseInt g = (if takeWhile is_digit g = [] then NaN else Num (digits_val (takeWhile is_digit g)))"
    by (rule parseInt_plain)
  have "length (takeWhile is_digit g) \<le> 2"
    using length_takeWhile_le[of is_digit g] assms(1) by simp
  moreover have "\<forall>c\<in>set (takeWhile is_digit g). is_digit c" by (auto dest: set_takeWhileD)
  ultimately have "0 \<le> digits_val (takeWhile is_digit g) \<and> digits_val (takeWhile is_digit g) \<le> 99"
    by (rule digits_val_range)
  with p show ?thesis by auto
qed

lemma table_range:
  "\<exists>x. lookup_or (chineseNumbers [c]) (Num 0) = Num x \<and> 0 \<le> x \<and> x \<le> 10 \<and> (c \<noteq> zh10 \<longrightarrow> x \<le> 9)"
  by (auto simp: chineseNumbers_def lookup_or_def num_or_def truthy_def)

lemma table_pair: "chineseNumbers [a, b] = None"
  by (simp add: chineseNumbers_def)

lemma zh_num_cases:
  assumes "is_zh_num a" "\<not> is_digit a"
  shows "a = zh1 \<or> a = zh2 \<or> a = zh3 \<or> a = zh4 \<or> a = zh5 \<or> a = zh6 \<or> a = zh7 \<or> a = zh8 \<or> a = zh9 \<or> a = zh10"
  using assms by (auto simp: is_zh_num_def)

lemma zh_conv_range:
  assumes "g \<noteq> []" "length g \<le> 2" "\<forall>c\<in>set g. is_zh_num c"
  shows "\<exists>v. chineseNumberToInt g = Num v \<and> 0 \<le> v \<and> v \<le> 99"
proof (cases "\<forall>c\<in>set g. is_digit c")
  case True
  with assms(1) have "chineseNumberToInt g = parseInt g"
    by (simp add: chineseNumberToInt_def test_all_digits)
  also have "\<dots> = Num (digits_val g)" using assms(1) True by (rule parseInt_digits)
  finally show ?thesis using digits_val_range[OF assms(2) True] by simp
next
  case False
  then have nt: "\<not> test re_all_digits g" by (simp add: test_all_digits)
  from assms(2) show ?thesis
  proof (cases g rule: short_list_cases)
    case 1
    with assms(1) show ?thesis by simp
  next
    case (2 a)
    with assms(3) False have "is_zh_num a" "\<not> is_digit a" by auto
    from zh_num_cases[OF this] show ?thesis using 2 nt
      by (auto simp: chineseNumberToInt_def startsWith_def endsWith_def indexOf_def
            chineseNumbers_def lookup_or_def num_or_def truthy_def substring_def)
  next
    case (3 a b)
    show ?thesis
    proof (cases "a = zh10")
      case True
      obtain x where "lookup_or (chineseNumbers [b]) (Num 0) = Num x" "0 \<le> x" "x \<le> 10"
        using table_range[of b] by blast
      with True 3 nt show ?thesis
        by (simp add: chineseNumberToInt_def startsWith_def substring_def)
    next
      case a: False
      show ?thesis
      proof (cases "b = zh10")
        case True
        obtain x where "lookup_or (chineseNumbers [a]) (Num 0) = Num x" "0 \<le> x" "x \<le> 9"
          using table_range[of a] a by blast
        with True a 3 nt show ?thesis
          by (simp add: chineseNumberToInt_def startsWith_def endsWith_def substring_def)
      next
        case b: False
        have "chineseNumberToInt g = num_or (parseInt g) (Num 1)"
          using a b 3 nt
          by (simp add: chineseNumberToInt_def startsWith_def endsWith_def indexOf_def table_pair lookup_or_def)
        moreover from parseInt_zh_range[OF assms(2,3)]
        have "\<exists>v. num_or (parseInt g) (Num 1) = Num v \<and> 0 \<le> v \<and> v \<le> 99"
          by (auto simp: num_or_def truthy_def)
        ultimately show ?thesis by simp
      qed
    qed
  qed
qed

section \<open>Facts about replacement and trimming\<close>

lemma substring_le: "a \<le> b \<Longrightarrow> substring s a b = take (b - a) (drop a s)"
  by (cases "a \<le> length s") (auto simp: substring_def Let_def min_def max_def)

lemma subseq_trim: "subseq (trim s) s"
proof -
  have "suffix (dropWhile is_space (rev (dropWhile is_space s))) (rev (dropWhile is_space s))"
    by (rule suffix_dropWhile)
  then have "prefix (trim s) (dropWhile is_space s)"
    by (simp add: trim_def suffix_to_prefix)
  then have "subseq (trim s) (dropWhile is_space s)" by (rule prefix_imp_subseq)
  moreover have "subseq (dropWhile is_space s) s"
    by (rule suffix_imp_subseq) (rule suffix_dropWhile)
  ultimately show ?thesis by (rule subseq_order.order_trans)
qed

lemma subseq_take_drop: "p \<le> i \<Longrightarrow> i \<le> j \<Longrightarrow> subseq x (drop j s) \<Longrightarrow> subseq (take (i - p) (drop p s) @ x) (drop p s)"
proof -
  assume a: "p \<le> i" "i \<le> j" "subseq x (drop j s)"
  have "drop j s = drop (j - i) (drop i s)" using a by simp
  then have "suffix (drop j s) (drop i s)" by (metis suffix_drop)
  then have "subseq (drop j s) (drop i s)" by (rule suffix_imp_subseq)
  with a(3) have x: "subseq x (drop i s)" by (rule subseq_order.order_trans)
  have "drop p s = take (i - p) (drop p s) @ drop (i - p) (drop p s)"
    by (simp only: append_take_drop_id)
  also have "drop (i - p) (drop p s) = drop i s" using a by simp
  finally have d: "drop p s = take (i - p) (drop p s) @ drop i s" .
  have "subseq (take (i - p) (drop p s) @ x) (take (i - p) (drop p s) @ drop i s)"
    using x by (simp add: subseq_append')
  with d show ?thesis by simp
qed

lemma subseq_subst_del: "subseq (subst s [] p ms) (drop p s)"
proof (induction ms arbitrary: p)
  case Nil
  show ?case by simp
next
  case (Cons m ms)
  show ?case
  proof (cases "p \<le> m_index m")
    case True
    have "m_index m \<le> m_end m" by (simp add: m_end_def)
    from subseq_take_drop[OF True this Cons.IH[of "m_end m"]] True
    show ?thesis by (simp add: substring_le)
  next
    case False
    then show ?thesis using Cons.IH[of p] by simp
  qed
qed

lemma subseq_replace_del: "subseq (replace s rx []) s"
proof -
  have "\<And>ms. subseq (subst s [] 0 ms) s" using subseq_subst_del[of s 0] by simp
  then show ?thesis
    by (simp only: replace_def split: if_splits option.splits) simp
qed

lemma map_fixed_slice:
  assumes "\<And>i. p \<le> i \<Longrightarrow> i < q \<Longrightarrow> i < length s \<Longrightarrow> f (s ! i) = s ! i"
  shows "map f (take (q - p) (drop p s)) = take (q - p) (drop p s)"
proof (rule map_idI)
  fix x assume "x \<in> set (take (q - p) (drop p s))"
  then obtain n where n: "n < length (take (q - p) (drop p s))" "x = take (q - p) (drop p s) ! n"
    by (auto simp: in_set_conv_nth)
  then have "n < q - p" "p + n < length s" by auto
  with n(2) have "x = s ! (p + n)" by simp
  moreover have "f (s ! (p + n)) = s ! (p + n)"
    using assms[of "p + n"] \<open>n < q - p\<close> \<open>p + n < length s\<close> by auto
  ultimately show "f x = x" by simp
qed

lemma all_matches_subseq_map:
  assumes unm: "\<And>i. i < length s \<Longrightarrow> match_at rx s i = None \<Longrightarrow> f (s ! i) = s ! i"
      and mat: "\<And>i m. match_at rx s i = Some m \<Longrightarrow> i \<le> length s \<Longrightarrow> m_0 m \<noteq> [] \<and> subseq rep (map f (m_0 m))"
  shows "subseq (subst s rep p (all_matches rx s p)) (map f (drop p s))"
  using assms
proof (induction rx s p rule: all_matches.induct)
  case (1 rx s k)
  note unm = "1.prems"(1) and mat = "1.prems"(2)
  show ?case
  proof (cases "exec_from rx s k")
    case None
    have "map f (take (length s - k) (drop k s)) = take (length s - k) (drop k s)"
    proof (rule map_fixed_slice)
      fix i assume "k \<le> i" "i < length s"
      then have "match_at rx s i = None" using exec_from_NoneD[OF None, of i] by simp
      then show "f (s ! i) = s ! i" using unm \<open>i < length s\<close> by blast
    qed
    then have "map f (drop k s) = drop k s" by simp
    with None show ?thesis by (simp add: all_matches.simps[of rx s k])
  next
    case (Some m)
    from exec_fromD[OF Some] have d: "k \<le> m_index m" "m_index m \<le> length s"
      "match_at rx s (m_index m) = Some m" "\<forall>i. k \<le> i \<and> i < m_index m \<longrightarrow> match_at rx s i = None"
      by auto
    from exec_from_span[OF Some] have sp: "m_index m \<le> m_end m" "m_end m \<le> length s"
      "m_0 m = take (m_end m - m_index m) (drop (m_index m) s)" by auto
    from mat[OF d(3) d(2)] have ne: "m_0 m \<noteq> []" and rp: "subseq rep (map f (m_0 m))" by auto
    have ih: "subseq (subst s rep (m_end m) (all_matches rx s (m_end m))) (map f (drop (m_end m) s))"
      using "1.IH"[OF Some unm mat] ne by simp
    have pre: "map f (take (m_index m - k) (drop k s)) = take (m_index m - k) (drop k s)"
    proof (rule map_fixed_slice)
      fix i assume "k \<le> i" "i < m_index m" "i < length s"
      then have "match_at rx s i = None" using d(4) by blast
      then show "f (s ! i) = s ! i" using unm \<open>i < length s\<close> by blast
    qed
    have "drop k s = take (m_index m - k) (drop k s) @ drop (m_index m - k) (drop k s)"
      by (simp only: append_take_drop_id)
    also have "drop (m_index m - k) (drop k s) = drop (m_index m) s" using d(1) by simp
    also have "drop (m_index m) s = take (m_end m - m_index m) (drop (m_index m) s) @
        drop (m_end m - m_index m) (drop (m_index m) s)"
      by (simp only: append_take_drop_id)
    also have "drop (m_end m - m_index m) (drop (m_index m) s) = drop (m_end m) s" using sp(1) by simp
    finally have dec: "drop k s = take (m_index m - k) (drop k s) @ m_0 m @ drop (m_end m) s"
      using sp(3) by simp
    have "map f (drop k s) = take (m_index m - k) (drop k s) @ map f (m_0 m) @ map f (drop (m_end m) s)"
      by (subst dec) (simp add: pre)
    moreover have "subst s rep k (all_matches rx s k) =
        take (m_index m - k) (drop k s) @ rep @ subst s rep (m_end m) (all_matches rx s (m_end m))"
      using Some ne d(1) by (simp add: all_matches.simps[of rx s k] substring_le)
    moreover have "subseq (rep @ subst s rep (m_end m) (all_matches rx s (m_end m)))
        (map f (m_0 m) @ map f (drop (m_end m) s))"
      using rp ih by (rule list_emb_append_mono)
    ultimately show ?thesis by (simp add: subseq_append')
  qed
qed

section \<open>Facts about the steps of the parser\<close>

lemma takeWhile_pos: "takeWhile p (drop i s) \<noteq> [] \<longleftrightarrow> i < length s \<and> p (s ! i)"
proof (cases "i < length s")
  case True
  then have "drop i s = s ! i # drop (Suc i) s" by (simp add: Cons_nth_drop_Suc)
  then show ?thesis using True by simp
next
  case False
  then show ?thesis by simp
qed

lemma underscore_match:
  assumes "match_at re_underscore s i = Some m"
  shows "m_0 m = [95]"
proof -
  from match_atD[OF assms] obtain j g where
    1: "(j, g) \<in> set (bt False (Lit 95) s (i, None))" and 2: "m_0 m = substring s i j"
    by (auto simp: re_underscore_def)
  from 1 have "i < length s" "s ! i = 95" "j = Suc i" by (auto simp: bt_iff lit_eq_def)
  with 2 show ?thesis by (simp add: substring_le take_Suc_conv_app_nth[of 0] hd_drop_conv_nth take_Suc)
qed

lemma underscore_no_match:
  assumes "match_at re_underscore s i = None" "i < length s"
  shows "s ! i \<noteq> 95"
proof
  assume "s ! i = 95"
  with assms(2) have "(Suc i, None) \<in> set (bt (icase re_underscore) (pat re_underscore) s (i, None))"
    by (simp add: re_underscore_def bt_iff lit_eq_def)
  from match_atI[OF this] assms(1) show False by simp
qed

lemma spaces_match:
  assumes "match_at re_spaces s i = Some m"
  shows "m_0 m \<noteq> [] \<and> is_space (hd (m_0 m))"
proof -
  from match_atD[OF assms] obtain j g where
    1: "(j, g) \<in> set (bt False (Rep 1 None is_space) s (i, None))" and 2: "m_0 m = substring s i j"
    by (auto simp: re_spaces_def)
  from 1 have j: "i + 1 \<le> j" "j \<le> i + length (takeWhile is_space (drop i s))" by (auto simp: bt_iff)
  then have "takeWhile is_space (drop i s) \<noteq> []" by (cases "takeWhile is_space (drop i s)") auto
  then have i: "i < length s" "is_space (s ! i)" by (simp_all add: takeWhile_pos)
  from j(1) obtain d where d: "j - i = Suc d" by (cases "j - i") auto
  from 2 j(1) have "m_0 m = take (j - i) (drop i s)" by (simp add: substring_le)
  with i d show ?thesis by (simp add: take_Suc hd_drop_conv_nth)
qed

lemma spaces_no_match:
  assumes "match_at re_spaces s i = None" "i < length s"
  shows "\<not> is_space (s ! i)"
proof
  assume "is_space (s ! i)"
  with assms(2) have "takeWhile is_space (drop i s) \<noteq> []" by (simp add: takeWhile_pos)
  then have "Suc 0 \<le> length (takeWhile is_space (drop i s))"
    by (cases "takeWhile is_space (drop i s)") auto
  then have "(Suc i, None) \<in> set (bt (icase re_spaces) (pat re_spaces) s (i, None))"
    by (simp add: re_spaces_def bt_iff)
  from match_atI[OF this] assms(1) show False by simp
qed

lemma subseq_normalize:
  "subseq (replace t re_underscore [32]) (map (\<lambda>c. if c = 95 then 32 else c) t)"
proof -
  have "subseq (subst t [32] 0 (all_matches re_underscore t 0)) (map (\<lambda>c. if c = 95 then 32 else c) (drop 0 t))"
  proof (rule all_matches_subseq_map)
    fix i assume "i < length t" "match_at re_underscore t i = None"
    then show "(if t ! i = 95 then 32 else t ! i) = t ! i" using underscore_no_match by auto
  next
    fix i m assume "match_at re_underscore t i = Some m"
    then show "m_0 m \<noteq> [] \<and> subseq [32] (map (\<lambda>c. if c = 95 then 32 else c) (m_0 m))"
      using underscore_match by auto
  qed
  then show ?thesis by (simp add: replace_def re_underscore_def)
qed

lemma subseq_collapse:
  "subseq (replace s re_spaces [32]) (map (\<lambda>c. if is_space c then 32 else c) s)"
proof -
  have "subseq (subst s [32] 0 (all_matches re_spaces s 0)) (map (\<lambda>c. if is_space c then 32 else c) (drop 0 s))"
  proof (rule all_matches_subseq_map)
    fix i assume "i < length s" "match_at re_spaces s i = None"
    then show "(if is_space (s ! i) then 32 else s ! i) = s ! i" using spaces_no_match by auto
  next
    fix i m assume "match_at re_spaces s i = Some m"
    from spaces_match[OF this] obtain x xs where "m_0 m = x # xs" "is_space x"
      by (cases "m_0 m") auto
    then show "m_0 m \<noteq> [] \<and> subseq [32] (map (\<lambda>c. if is_space c then 32 else c) (m_0 m))"
      by simp
  qed
  then show ?thesis by (simp add: replace_def re_spaces_def)
qed

lemma subseq_cleaner: "subseq (cleaner s) (map (\<lambda>c. if is_space c then 32 else c) s)"
proof -
  let ?sp = "\<lambda>c. if is_space c then 32 else (c::nat)"
  let ?a = "replace s re_empty_brackets []"
  let ?b = "replace ?a re_empty_parens []"
  let ?c = "replace ?b re_spaces [32]"
  let ?d = "replace ?c re_trailer []"
  have "subseq ?b ?a" "subseq ?a s" by (rule subseq_replace_del)+
  then have "subseq ?b s" by (rule subseq_order.order_trans)
  then have "subseq (map ?sp ?b) (map ?sp s)" by (rule subseq_map)
  with subseq_collapse[of ?b] have c: "subseq ?c (map ?sp s)" by (rule subseq_order.order_trans)
  have "subseq (trim ?d) ?d" by (rule subseq_trim)
  moreover have "subseq ?d ?c" by (rule subseq_replace_del)
  ultimately have "subseq (trim ?d) ?c" by (rule subseq_order.order_trans)
  with c show ?thesis unfolding cleaner_def by (rule subseq_order.order_trans[rotated])
qed

lemma subseq_trim_replace: "subseq (trim (replace s rx [])) s"
  using subseq_trim subseq_replace_del by (rule subseq_order.order_trans)

lemma season_loop_subseq: "season_loop ps s = Inr (sn, s') \<Longrightarrow> subseq s' s"
proof (induction ps)
  case Nil
  then show ?case by simp
next
  case (Cons p ps)
  then show ?case
    by (auto simp: subseq_trim_replace split: option.splits sum.splits)
qed

lemma year_loop_subseq: "year_loop yps s = (y, s') \<Longrightarrow> subseq s' s"
proof (induction yps)
  case Nil
  then show ?case by simp
next
  case (Cons p ps)
  then show ?case
    by (auto simp: subseq_trim_replace Let_def split: option.splits if_splits)
qed

lemma parseD:
  assumes "parseSeasonFromTitle t = Inr r"
  obtains s1 s2 where
    "season_loop patterns (replace t re_underscore [32]) = Inr (seasonNumber r, s1)"
    "year_loop yearPatterns s1 = (year r, s2)"
    "cleanTitle r = cleaner s2" "originalTitle r = t"
  using assms by (auto simp: parseSeasonFromTitle_def split: sum.splits prod.splits)

lemma take_takeWhile_prefix:
  "n \<le> length (takeWhile p xs) \<Longrightarrow> take n xs = take n (takeWhile p xs)"
proof -
  assume a: "n \<le> length (takeWhile p xs)"
  have "take n xs = take n (takeWhile p xs @ dropWhile p xs)" by simp
  also have "\<dots> = take n (takeWhile p xs)" using a by (simp del: takeWhile_dropWhile_id)
  finally show ?thesis .
qed

lemma capture_run:
  assumes "a + 1 \<le> b" "b \<le> a + 2" "b \<le> a + length (takeWhile p (drop a s))"
  shows "substring s a b \<noteq> [] \<and> length (substring s a b) \<le> 2 \<and> (\<forall>c\<in>set (substring s a b). p c)"
proof -
  from assms(1) have s: "substring s a b = take (b - a) (drop a s)" by (simp add: substring_le)
  from assms(3) have n: "b - a \<le> length (takeWhile p (drop a s))" by simp
  then have t: "take (b - a) (drop a s) = take (b - a) (takeWhile p (drop a s))"
    by (rule take_takeWhile_prefix)
  have "\<forall>c\<in>set (take (b - a) (takeWhile p (drop a s))). p c"
    by (meson in_set_takeD set_takeWhileD)
  moreover have "length (take (b - a) (takeWhile p (drop a s))) = b - a" using n by simp
  ultimately show ?thesis using assms(1,2) unfolding s t by auto
qed

lemmas season_res = re_season_1_def re_season_2_def re_season_3_def re_season_4_def
  re_season_5_def re_season_6_def re_season_7_def re_season_8_def

lemma season_span:
  assumes "(j, g) \<in> set (bt (icase rx) (pat rx) s (i, None))"
    and "rx \<in> {re_season_2, re_season_3, re_season_4, re_season_5, re_season_6, re_season_7, re_season_8}"
  shows "\<exists>a b. g = Some (a, b) \<and> a + 1 \<le> b \<and> b \<le> a + 2 \<and> i < j \<and>
           b \<le> a + length (takeWhile (if rx \<in> {re_season_2, re_season_3, re_season_4} then is_digit else is_zh_num) (drop a s))"
proof -
  from assms(2) consider "rx = re_season_2" | "rx = re_season_3" | "rx = re_season_4" | "rx = re_season_5"
    | "rx = re_season_6" | "rx = re_season_7" | "rx = re_season_8" by auto
  then show ?thesis
  proof cases
    case 1
    with assms(1) show ?thesis
      by (auto simp: season_res plain_def bt_iff)
  next
    case 2
    with assms(1) show ?thesis
      by (auto simp: season_res lits_def ascii_def bt_iff)
  next
    case 3
    with assms(1) show ?thesis
      by (auto simp: season_res lits_def ascii_def bt_iff)
  next
    case 4
    with assms(1) show ?thesis
      by (auto simp: season_res plain_def bt_iff)
  next
    case 5
    with assms(1) show ?thesis
      by (auto simp: season_res plain_def bt_iff)
  next
    case 6
    with assms(1) show ?thesis
      by (auto simp: season_res plain_def bt_iff)
  next
    case 7
    with assms(1) show ?thesis
      by (auto simp: season_res plain_def bt_iff)
  qed
qed

lemma js_matchD:
  "js_match s rx = Some m \<Longrightarrow> match_at rx s (m_index m) = Some m \<and> m_index m \<le> length s"
  using exec_fromD[of rx s 0 m] by (simp add: js_match_def)

lemma season_1_span:
  assumes "(j, g) \<in> set (bt (icase re_season_1) (pat re_season_1) s (i, None))"
  shows "\<exists>a b. g = Some (a, b) \<and> a < length s \<and> is_S (s ! a) \<and> Suc a + 1 \<le> b \<and> b \<le> Suc a + 2 \<and> i < j \<and>
           b \<le> Suc a + length (takeWhile is_digit (drop (Suc a) s))"
  using assms by (auto simp: re_season_1_def plain_def bt_iff)

lemma substring_Cons: "a < length s \<Longrightarrow> a < b \<Longrightarrow> substring s a b = s ! a # substring s (Suc a) b"
proof -
  assume a: "a < length s" "a < b"
  then obtain n where n: "b - a = Suc n" by (cases "b - a") auto
  then have "b - Suc a = n" by simp
  with a n show ?thesis by (simp add: substring_le Cons_nth_drop_Suc[symmetric] take_Suc hd_drop_conv_nth tl_drop drop_Suc)
qed

lemma S_digits_match:
  assumes "is_S c" "d \<noteq> []" "length d \<le> 2" "\<forall>x\<in>set d. is_digit x"
  shows "\<exists>sm. js_match (c # d) re_S_digits = Some sm \<and> m_1 sm = Some d"
  using assms(3)
proof (cases d rule: short_list_cases)
  case 1
  with assms(2) show ?thesis by simp
next
  case (2 x)
  with assms(1,4) show ?thesis
    by (simp add: js_match_def exec_from_def match_at_def re_S_digits_def plain_def bt.simps substring_def)
next
  case (3 x y)
  with assms(1,4) show ?thesis
    by (simp add: js_match_def exec_from_def match_at_def re_S_digits_def plain_def bt.simps substring_def)
qed

lemma capture_digits:
  assumes "match_at rx s i = Some m" "rx \<in> {re_season_2, re_season_3, re_season_4}"
  shows "\<exists>d. m_1 m = Some d \<and> d \<noteq> [] \<and> length d \<le> 2 \<and> (\<forall>c\<in>set d. is_digit c)"
proof -
  from match_atD[OF assms(1)] obtain j g where
    1: "(j, g) \<in> set (bt (icase rx) (pat rx) s (i, None))" and
    2: "m_1 m = map_option (\<lambda>(a, b). substring s a b) g" by auto
  from assms(2) have "rx \<in> {re_season_2, re_season_3, re_season_4, re_season_5, re_season_6, re_season_7, re_season_8}"
    by auto
  from season_span[OF 1 this] assms(2) obtain a b where
    "g = Some (a, b)" "a + 1 \<le> b" "b \<le> a + 2" "b \<le> a + length (takeWhile is_digit (drop a s))"
    by auto
  with 2 capture_run[of a b is_digit s] show ?thesis by simp
qed

lemma season_res_distinct: "re_season_5 \<notin> {re_season_2, re_season_3, re_season_4}"
  "re_season_6 \<notin> {re_season_2, re_season_3, re_season_4}"
  "re_season_7 \<notin> {re_season_2, re_season_3, re_season_4}"
  "re_season_8 \<notin> {re_season_2, re_season_3, re_season_4}"
  by (simp_all add: season_res plain_def lits_def ascii_def)

lemma capture_zh:
  assumes "match_at rx s i = Some m" "rx \<in> {re_season_5, re_season_6, re_season_7, re_season_8}"
  shows "\<exists>d. m_1 m = Some d \<and> d \<noteq> [] \<and> length d \<le> 2 \<and> (\<forall>c\<in>set d. is_zh_num c)"
proof -
  from match_atD[OF assms(1)] obtain j g where
    1: "(j, g) \<in> set (bt (icase rx) (pat rx) s (i, None))" and
    2: "m_1 m = map_option (\<lambda>(a, b). substring s a b) g" by auto
  from assms(2) have in7: "rx \<in> {re_season_2, re_season_3, re_season_4, re_season_5, re_season_6, re_season_7, re_season_8}"
    by auto
  from assms(2) season_res_distinct have "rx \<notin> {re_season_2, re_season_3, re_season_4}" by auto
  with season_span[OF 1 in7] obtain a b where
    "g = Some (a, b)" "a + 1 \<le> b" "b \<le> a + 2" "b \<le> a + length (takeWhile is_zh_num (drop a s))"
    by auto
  with 2 capture_run[of a b is_zh_num s] show ?thesis by simp
qed

lemma capture_S:
  assumes "match_at re_season_1 s i = Some m"
  shows "\<exists>c d. m_1 m = Some (c # d) \<and> is_S c \<and> d \<noteq> [] \<and> length d \<le> 2 \<and> (\<forall>x\<in>set d. is_digit x)"
proof -
  from match_atD[OF assms(1)] obtain j g where
    1: "(j, g) \<in> set (bt (icase re_season_1) (pat re_season_1) s (i, None))" and
    2: "m_1 m = map_option (\<lambda>(a, b). substring s a b) g" by auto
  from season_1_span[OF 1] obtain a b where
    s: "g = Some (a, b)" "a < length s" "is_S (s ! a)" "Suc a + 1 \<le> b" "b \<le> Suc a + 2"
       "b \<le> Suc a + length (takeWhile is_digit (drop (Suc a) s))" by blast
  from s(2,4) have "substring s a b = s ! a # substring s (Suc a) b" by (intro substring_Cons) auto
  with 2 s(1,3) capture_run[OF s(4,5,6)] show ?thesis by simp
qed

lemma season_match_nonempty:
  assumes "match_at rx s i = Some m" "i \<le> length s"
    and "rx \<in> {re_season_1, re_season_2, re_season_3, re_season_4, re_season_5, re_season_6, re_season_7, re_season_8}"
  shows "m_index m < m_end m"
proof -
  from match_atD[OF assms(1)] obtain j g where
    1: "(j, g) \<in> set (bt (icase rx) (pat rx) s (i, None))" and
    2: "m_index m = i" "m_0 m = substring s i j" by auto
  have "i < j"
  proof (cases "rx = re_season_1")
    case True
    with 1 season_1_span show ?thesis by blast
  next
    case False
    with assms(3) have "rx \<in> {re_season_2, re_season_3, re_season_4, re_season_5, re_season_6, re_season_7, re_season_8}"
      by auto
    from season_span[OF 1 this] show ?thesis by blast
  qed
  moreover from bt_bounds[OF 1 assms(2)] have "j \<le> length s" by simp
  ultimately show ?thesis using 2 by (simp add: m_end_def substring_le)
qed

lemma extractor_range:
  assumes "p \<in> set patterns" "js_match s (regex p) = Some m"
  shows "\<exists>v. extractor p m = Inr (Some (Num v)) \<and> 0 \<le> v \<and> v \<le> 99"
proof -
  from js_matchD[OF assms(2)] have ma: "match_at (regex p) s (m_index m) = Some m" by simp
  from assms(1) consider
      (bracket) "regex p = re_season_1" "extractor p = extract_bracket_S"
    | (latin) "regex p \<in> {re_season_2, re_season_3, re_season_4}" "extractor p = extract_int"
    | (chinese) "regex p \<in> {re_season_5, re_season_6, re_season_7, re_season_8}" "extractor p = extract_chinese"
    by (auto simp: patterns_def)
  then show ?thesis
  proof cases
    case bracket
    with ma capture_S obtain c d where
      c: "m_1 m = Some (c # d)" "is_S c" "d \<noteq> []" "length d \<le> 2" "\<forall>x\<in>set d. is_digit x" by metis
    from S_digits_match[OF c(2,3,4,5)] obtain sm where
      sm: "js_match (c # d) re_S_digits = Some sm" "m_1 sm = Some d" by blast
    with bracket c(1) have "extractor p m = Inr (Some (parseInt d))"
      by (simp add: extract_bracket_S_def parseInt_opt_def)
    with parseInt_digits[OF c(3,5)] digits_val_range[OF c(4,5)] show ?thesis by simp
  next
    case latin
    with ma capture_digits obtain d where
      d: "m_1 m = Some d" "d \<noteq> []" "length d \<le> 2" "\<forall>x\<in>set d. is_digit x" by metis
    with latin have "extractor p m = Inr (Some (parseInt d))"
      by (simp add: extract_int_def parseInt_opt_def)
    with parseInt_digits[OF d(2,4)] digits_val_range[OF d(3,4)] show ?thesis by simp
  next
    case chinese
    with ma capture_zh obtain d where
      d: "m_1 m = Some d" "d \<noteq> []" "length d \<le> 2" "\<forall>x\<in>set d. is_zh_num x" by metis
    with chinese have "extractor p m = Inr (Some (chineseNumberToInt d))"
      by (simp add: extract_chinese_def)
    with zh_conv_range[OF d(2,3,4)] show ?thesis by auto
  qed
qed

lemma season_loop_cases:
  assumes "\<forall>p\<in>set ps. \<forall>m. js_match s (regex p) = Some m \<longrightarrow> (\<exists>v. extractor p m = Inr (Some v) \<and> P v)"
  shows "season_loop ps s = Inr (None, s) \<or> (\<exists>v s'. season_loop ps s = Inr (Some v, s') \<and> P v)"
  using assms
proof (induction ps)
  case Nil
  then show ?case by simp
next
  case (Cons p ps)
  show ?case
  proof (cases "js_match s (regex p)")
    case None
    with Cons show ?thesis by simp
  next
    case (Some m)
    with Cons.prems obtain v where "extractor p m = Inr (Some v)" "P v" by auto
    with Some show ?thesis by simp
  qed
qed

lemma season_loop_patterns:
  "season_loop patterns s = Inr (None, s) \<or>
   (\<exists>v s'. season_loop patterns s = Inr (Some (Num v), s') \<and> 0 \<le> v \<and> v \<le> 99)"
proof -
  have "\<forall>p\<in>set patterns. \<forall>m. js_match s (regex p) = Some m \<longrightarrow>
          (\<exists>n. extractor p m = Inr (Some n) \<and> (\<exists>v. n = Num v \<and> 0 \<le> v \<and> v \<le> 99))"
    using extractor_range by blast
  from season_loop_cases[of patterns s "\<lambda>n. \<exists>v. n = Num v \<and> 0 \<le> v \<and> v \<le> 99", OF this]
  show ?thesis by auto
qed

lemma year_loop_range:
  "year_loop yps s = (Some y, s') \<Longrightarrow> \<exists>v. y = Num v \<and> 1900 \<le> v \<and> v \<le> 2100"
proof (induction yps)
  case Nil
  then show ?case by simp
next
  case (Cons yp yps)
  show ?case
  proof (cases "js_match s yp")
    case None
    with Cons show ?thesis by simp
  next
    case (Some m)
    show ?thesis
    proof (cases "parseInt_opt (m_1 m)")
      case NaN
      with Some Cons show ?thesis by simp
    next
      case (Num v)
      show ?thesis
      proof (cases "1900 \<le> v \<and> v \<le> 2100")
        case True
        with Some Num Cons.prems have "y = Num v" by simp
        with True show ?thesis by simp
      next
        case False
        with Some Num Cons show ?thesis by auto
      qed
    qed
  qed
qed

lemma replace_first_cut:
  assumes "\<not> global rx" "js_match s rx = Some m"
  shows "replace s rx [] = take (m_index m) s @ drop (m_end m) s"
    and "s = take (m_index m) s @ m_0 m @ drop (m_end m) s"
    and "m_index m \<le> m_end m" and "m_end m \<le> length s"
proof -
  from assms(2) have e: "exec_from rx s 0 = Some m" by (simp add: js_match_def)
  from exec_from_span[OF e] have sp: "m_index m \<le> m_end m" "m_end m \<le> length s"
    "m_0 m = take (m_end m - m_index m) (drop (m_index m) s)" by auto
  show "replace s rx [] = take (m_index m) s @ drop (m_end m) s"
    using assms(1) e by (simp add: replace_def substring_le)
  show "m_index m \<le> m_end m" "m_end m \<le> length s" using sp by auto
  have "s = take (m_index m) s @ drop (m_index m) s" by simp
  also have "drop (m_index m) s = take (m_end m - m_index m) (drop (m_index m) s) @
      drop (m_end m - m_index m) (drop (m_index m) s)"
    by (simp only: append_take_drop_id)
  also have "drop (m_end m - m_index m) (drop (m_index m) s) = drop (m_end m) s" using sp(1) by simp
  finally show "s = take (m_index m) s @ m_0 m @ drop (m_end m) s" using sp(3) by simp
qed

lemma patterns_not_global: "p \<in> set patterns \<Longrightarrow> \<not> global (regex p)"
  by (auto simp: patterns_def season_res plain_def)

lemma patterns_regex:
  "p \<in> set patterns \<Longrightarrow>
   regex p \<in> {re_season_1, re_season_2, re_season_3, re_season_4, re_season_5, re_season_6, re_season_7, re_season_8}"
  by (auto simp: patterns_def)

lemma season_loop_fired:
  "season_loop ps s = Inr (Some v, s') \<Longrightarrow>
   \<exists>p\<in>set ps. \<exists>m. js_match s (regex p) = Some m \<and> extractor p m = Inr (Some v) \<and>
      s' = trim (replace s (regex p) [])"
proof (induction ps)
  case Nil
  then show ?case by simp
next
  case (Cons p ps)
  show ?case
  proof (cases "js_match s (regex p)")
    case None
    with Cons show ?thesis by auto
  next
    case (Some m)
    show ?thesis
    proof (cases "extractor p m")
      case (Inl e)
      with Some Cons.prems show ?thesis by simp
    next
      case (Inr w)
      show ?thesis
      proof (cases w)
        case None
        with Inr Some Cons show ?thesis by auto
      next
        case (Some x)
        with Inr \<open>js_match s (regex p) = Some m\<close> Cons.prems show ?thesis by auto
      qed
    qed
  qed
qed

lemma length_trim_le: "length (trim s) \<le> length s"
  using subseq_trim by (rule list_emb_length)

lemma season_step_shorter:
  assumes "season_loop patterns s = Inr (Some v, s')"
  shows "length s' < length s"
proof -
  from season_loop_fired[OF assms] obtain p m where
    p: "p \<in> set patterns" "js_match s (regex p) = Some m" "s' = trim (replace s (regex p) [])"
    by blast
  from js_matchD[OF p(2)] have ma: "match_at (regex p) s (m_index m) = Some m" "m_index m \<le> length s"
    by auto
  from season_match_nonempty[OF ma patterns_regex[OF p(1)]] have lt: "m_index m < m_end m" .
  note c = replace_first_cut[OF patterns_not_global[OF p(1)] p(2)]
  from c(1) c(4) lt have "length (replace s (regex p) []) < length s" by simp
  with length_trim_le[of "replace s (regex p) []"] p(3) show ?thesis by simp
qed

lemma length_normalize: "length (replace t re_underscore [32]) \<le> length t"
  using list_emb_length[OF subseq_normalize[of t]] by simp

lemma length_cleaner: "length (cleaner s) \<le> length s"
  using list_emb_length[OF subseq_cleaner[of s]] by simp

lemma length_year_loop: "year_loop yps s = (y, s') \<Longrightarrow> length s' \<le> length s"
  using year_loop_subseq by (blast intro: list_emb_length)

lemma parse_shorter:
  assumes "parseSeasonFromTitle t = Inr r" "seasonNumber r = Some v"
  shows "length (cleanTitle r) < length t"
proof -
  from assms(1) obtain s1 s2 where
    l: "season_loop patterns (replace t re_underscore [32]) = Inr (seasonNumber r, s1)" and
    y: "year_loop yearPatterns s1 = (year r, s2)" and c: "cleanTitle r = cleaner s2"
    by (rule parseD)
  from l assms(2) have "length s1 < length (replace t re_underscore [32])"
    by (intro season_step_shorter[of _ v]) simp
  with length_normalize[of t] have "length s1 < length t" by simp
  with length_year_loop[OF y] length_cleaner[of s2] c show ?thesis by simp
qed

lemma bracket_first:
  assumes "js_match s re_season_1 = Some m"
  shows "\<exists>c d v. m_1 m = Some (c # d) \<and> is_S c \<and> parseInt d = Num v \<and>
           extract_bracket_S m = Inr (Some (Num v))"
proof -
  from js_matchD[OF assms] have "match_at re_season_1 s (m_index m) = Some m" by simp
  from capture_S[OF this] obtain c d where
    c: "m_1 m = Some (c # d)" "is_S c" "d \<noteq> []" "length d \<le> 2" "\<forall>x\<in>set d. is_digit x" by blast
  from S_digits_match[OF c(2,3,4,5)] obtain sm where
    "js_match (c # d) re_S_digits = Some sm" "m_1 sm = Some d" by blast
  with c(1) have "extract_bracket_S m = Inr (Some (parseInt d))"
    by (simp add: extract_bracket_S_def parseInt_opt_def)
  with parseInt_digits[OF c(3,5)] c(1,2) show ?thesis by simp
qed

lemma patterns_Cons:
  "patterns = \<lparr>regex = re_season_1, extractor = extract_bracket_S\<rparr> # tl patterns"
  by (simp add: patterns_def)

lemma substring_snoc: "a \<le> b \<Longrightarrow> b < length s \<Longrightarrow> substring s a (Suc b) = substring s a b @ [s ! b]"
proof -
  assume a: "a \<le> b" "b < length s"
  then have "Suc b - a = Suc (b - a)" "b - a < length (drop a s)" by auto
  then have "take (Suc b - a) (drop a s) = take (b - a) (drop a s) @ [drop a s ! (b - a)]"
    by (simp add: take_Suc_conv_app_nth)
  with a show ?thesis by (simp add: substring_le)
qed

lemma chinese_bare_form:
  assumes "js_match s rx = Some m" "rx = plain (seq [Lit zhDi, Grp (Rep 1 (Some 2) is_zh_num), Lit e])"
  shows "\<exists>d. m_1 m = Some d \<and> 1 \<le> length d \<and> length d \<le> 2 \<and> m_0 m = [zhDi] @ d @ [e]"
proof -
  from js_matchD[OF assms(1)] have ma: "match_at rx s (m_index m) = Some m" by simp
  from match_atD[OF ma] obtain j g where
    1: "(j, g) \<in> set (bt (icase rx) (pat rx) s (m_index m, None))" and
    2: "m_0 m = substring s (m_index m) j" "m_1 m = map_option (\<lambda>(a, b). substring s a b) g"
    by (metis rmatch.select_convs(2,3))
  let ?i = "m_index m"
  from 1 assms(2) obtain b where
    b: "?i < length s" "s ! ?i = zhDi" "g = Some (Suc ?i, b)" "Suc ?i + 1 \<le> b" "b \<le> Suc ?i + 2"
       "b < length s" "s ! b = e" "j = Suc b"
    by (auto simp: plain_def bt_iff lit_eq_def)
  have "substring s ?i (Suc b) = s ! ?i # substring s (Suc ?i) (Suc b)"
    using b(1,4) by (intro substring_Cons) auto
  also have "substring s (Suc ?i) (Suc b) = substring s (Suc ?i) b @ [s ! b]"
    using b(4,6) by (intro substring_snoc) auto
  finally have "m_0 m = [zhDi] @ substring s (Suc ?i) b @ [e]" using 2(1) b by simp
  moreover have "length (substring s (Suc ?i) b) = b - Suc ?i" using b by (simp add: substring_le)
  moreover have "1 \<le> b - Suc ?i \<and> b - Suc ?i \<le> 2" using b(4,5) by arith
  ultimately show ?thesis using 2(2) b(3) by simp
qed

lemma chinese_bracket_form:
  assumes "js_match s rx = Some m" "rx = plain (seq [Lit 91, Lit zhDi, Grp (Rep 1 (Some 2) is_zh_num), Lit e, Lit 93])"
  shows "\<exists>d. m_1 m = Some d \<and> 1 \<le> length d \<and> length d \<le> 2 \<and> m_0 m = [91, zhDi] @ d @ [e, 93]"
proof -
  from js_matchD[OF assms(1)] have ma: "match_at rx s (m_index m) = Some m" by simp
  from match_atD[OF ma] obtain j g where
    1: "(j, g) \<in> set (bt (icase rx) (pat rx) s (m_index m, None))" and
    2: "m_0 m = substring s (m_index m) j" "m_1 m = map_option (\<lambda>(a, b). substring s a b) g"
    by (metis rmatch.select_convs(2,3))
  let ?i = "m_index m"
  from 1 assms(2) obtain b where
    b: "?i < length s" "s ! ?i = 91" "Suc ?i < length s" "s ! Suc ?i = zhDi"
       "g = Some (Suc (Suc ?i), b)" "Suc (Suc ?i) + 1 \<le> b" "b \<le> Suc (Suc ?i) + 2"
       "b < length s" "s ! b = e" "Suc b < length s" "s ! Suc b = 93" "j = Suc (Suc b)"
    by (auto simp: plain_def bt_iff lit_eq_def)
  have "substring s ?i (Suc (Suc b)) = s ! ?i # substring s (Suc ?i) (Suc (Suc b))"
    using b(1,6) by (intro substring_Cons) auto
  also have "substring s (Suc ?i) (Suc (Suc b)) = s ! Suc ?i # substring s (Suc (Suc ?i)) (Suc (Suc b))"
    using b(3,6) by (intro substring_Cons) auto
  also have "substring s (Suc (Suc ?i)) (Suc (Suc b)) = substring s (Suc (Suc ?i)) (Suc b) @ [s ! Suc b]"
    using b(6,10) by (intro substring_snoc) auto
  also have "substring s (Suc (Suc ?i)) (Suc b) = substring s (Suc (Suc ?i)) b @ [s ! b]"
    using b(6,8) by (intro substring_snoc) auto
  finally have "m_0 m = [91, zhDi] @ substring s (Suc (Suc ?i)) b @ [e, 93]" using 2(1) b by simp
  moreover have "length (substring s (Suc (Suc ?i)) b) = b - Suc (Suc ?i)" using b by (simp add: substring_le)
  moreover have "1 \<le> b - Suc (Suc ?i) \<and> b - Suc (Suc ?i) \<le> 2" using b(6,7) by arith
  ultimately show ?thesis using 2(2) b(5) by simp
qed

lemma parse_returns: "\<exists>r. parseSeasonFromTitle t = Inr r"
proof -
  obtain sn s1 where "season_loop patterns (replace t re_underscore [32]) = Inr (sn, s1)"
    using season_loop_patterns[of "replace t re_underscore [32]"] by auto
  then show ?thesis
    by (cases "year_loop yearPatterns s1") (simp add: parseSeasonFromTitle_def)
qed

lemma reparse_settles_aux:
  "\<exists>k\<le>length t. \<exists>r. parseSeasonFromTitle ((reclean ^^ k) t) = Inr r \<and> seasonNumber r = None"
proof (induction "length t" arbitrary: t rule: less_induct)
  case less
  obtain r where r: "parseSeasonFromTitle t = Inr r" using parse_returns by blast
  show ?case
  proof (cases "seasonNumber r")
    case None
    with r have "parseSeasonFromTitle ((reclean ^^ 0) t) = Inr r \<and> seasonNumber r = None" by simp
    then show ?thesis by blast
  next
    case (Some v)
    from parse_shorter[OF r Some] have lt: "length (cleanTitle r) < length t" .
    from less[OF lt] obtain k r' where
      k: "k \<le> length (cleanTitle r)" "parseSeasonFromTitle ((reclean ^^ k) (cleanTitle r)) = Inr r'"
         "seasonNumber r' = None" by blast
    have "(reclean ^^ Suc k) t = (reclean ^^ k) (reclean t)" by (simp add: funpow_swap1)
    also have "reclean t = cleanTitle r" using r by (simp add: reclean_def)
    finally have "parseSeasonFromTitle ((reclean ^^ Suc k) t) = Inr r'" using k(2) by simp
    moreover have "Suc k \<le> length t" using k(1) lt by simp
    ultimately show ?thesis using k(3) by blast
  qed
qed

lemma all_matches_map_eq:
  assumes unm: "\<And>i. i < length s \<Longrightarrow> match_at rx s i = None \<Longrightarrow> f (s ! i) = s ! i"
      and mat: "\<And>i m. match_at rx s i = Some m \<Longrightarrow> i \<le> length s \<Longrightarrow> m_0 m \<noteq> [] \<and> rep = map f (m_0 m)"
  shows "subst s rep p (all_matches rx s p) = map f (drop p s)"
  using assms
proof (induction rx s p rule: all_matches.induct)
  case (1 rx s k)
  note unm = "1.prems"(1) and mat = "1.prems"(2)
  show ?case
  proof (cases "exec_from rx s k")
    case None
    have "map f (take (length s - k) (drop k s)) = take (length s - k) (drop k s)"
    proof (rule map_fixed_slice)
      fix i assume "k \<le> i" "i < length s"
      then have "match_at rx s i = None" using exec_from_NoneD[OF None, of i] by simp
      then show "f (s ! i) = s ! i" using unm \<open>i < length s\<close> by blast
    qed
    then have "map f (drop k s) = drop k s" by simp
    with None show ?thesis by (simp add: all_matches.simps[of rx s k])
  next
    case (Some m)
    from exec_fromD[OF Some] have d: "k \<le> m_index m" "m_index m \<le> length s"
      "match_at rx s (m_index m) = Some m" "\<forall>i. k \<le> i \<and> i < m_index m \<longrightarrow> match_at rx s i = None"
      by auto
    from exec_from_span[OF Some] have sp: "m_index m \<le> m_end m" "m_end m \<le> length s"
      "m_0 m = take (m_end m - m_index m) (drop (m_index m) s)" by auto
    from mat[OF d(3) d(2)] have ne: "m_0 m \<noteq> []" and rp: "rep = map f (m_0 m)" by auto
    have ih: "subst s rep (m_end m) (all_matches rx s (m_end m)) = map f (drop (m_end m) s)"
      using "1.IH"[OF Some unm mat] ne by simp
    have pre: "map f (take (m_index m - k) (drop k s)) = take (m_index m - k) (drop k s)"
    proof (rule map_fixed_slice)
      fix i assume "k \<le> i" "i < m_index m" "i < length s"
      then have "match_at rx s i = None" using d(4) by blast
      then show "f (s ! i) = s ! i" using unm \<open>i < length s\<close> by blast
    qed
    have "drop k s = take (m_index m - k) (drop k s) @ drop (m_index m - k) (drop k s)"
      by (simp only: append_take_drop_id)
    also have "drop (m_index m - k) (drop k s) = drop (m_index m) s" using d(1) by simp
    also have "drop (m_index m) s = take (m_end m - m_index m) (drop (m_index m) s) @
        drop (m_end m - m_index m) (drop (m_index m) s)"
      by (simp only: append_take_drop_id)
    also have "drop (m_end m - m_index m) (drop (m_index m) s) = drop (m_end m) s" using sp(1) by simp
    finally have dec: "drop k s = take (m_index m - k) (drop k s) @ m_0 m @ drop (m_end m) s"
      using sp(3) by simp
    have "map f (drop k s) = take (m_index m - k) (drop k s) @ map f (m_0 m) @ map f (drop (m_end m) s)"
      by (subst dec) (simp add: pre)
    moreover have "subst s rep k (all_matches rx s k) =
        take (m_index m - k) (drop k s) @ rep @ subst s rep (m_end m) (all_matches rx s (m_end m))"
      using Some ne d(1) by (simp add: all_matches.simps[of rx s k] substring_le)
    ultimately show ?thesis using rp ih by simp
  qed
qed

lemma normalized_eq: "normalized t = map (\<lambda>c. if c = 95 then 32 else c) t"
proof -
  have "subst t [32] 0 (all_matches re_underscore t 0) = map (\<lambda>c. if c = 95 then 32 else c) (drop 0 t)"
  proof (rule all_matches_map_eq)
    fix i assume "i < length t" "match_at re_underscore t i = None"
    then show "(if t ! i = 95 then 32 else t ! i) = t ! i" using underscore_no_match by auto
  next
    fix i m assume "match_at re_underscore t i = Some m"
    then show "m_0 m \<noteq> [] \<and> [32] = map (\<lambda>c. if c = 95 then 32 else c) (m_0 m)"
      using underscore_match by auto
  qed
  then show ?thesis by (simp add: replace_def re_underscore_def)
qed

lemma takeWhile_append_ge:
  "\<forall>x\<in>set d. p x \<Longrightarrow> length d \<le> length (takeWhile p (d @ r))"
  by (simp add: takeWhile_append2)

lemma bracket_marker_found:
  assumes "s = pre @ [91, c] @ d @ [93] @ post" "is_S c" "d \<noteq> []" "length d \<le> 2" "\<forall>x\<in>set d. is_digit x"
  shows "\<exists>m. js_match s re_season_1 = Some m"
proof -
  let ?i = "length pre"
  have s0: "?i < length s" "s ! ?i = 91" using assms(1) by (simp_all add: nth_append)
  have s1: "Suc ?i < length s" "s ! Suc ?i = c" using assms(1) by (simp_all add: nth_append)
  have dr: "drop (Suc (Suc ?i)) s = d @ [93] @ post" using assms(1) by simp
  have run: "length d \<le> length (takeWhile is_digit (drop (Suc (Suc ?i)) s))"
    unfolding dr using assms(5) by (rule takeWhile_append_ge)
  have s2: "Suc (Suc ?i) + length d < length s" "s ! (Suc (Suc ?i) + length d) = 93"
    using assms(1) by (simp_all add: nth_append)
  have "1 \<le> length d" using assms(3) by (cases d) auto
  with s0 s1 s2 run assms(2,4)
  have "(Suc (Suc (Suc ?i) + length d), Some (Suc ?i, Suc (Suc ?i) + length d))
          \<in> set (bt (icase re_season_1) (pat re_season_1) s (?i, None))"
    by (simp add: re_season_1_def plain_def bt_iff lit_eq_def)
  from match_atI[OF this] obtain m' where "match_at re_season_1 s ?i = Some m'" by blast
  from exec_fromI[OF this, of 0] s0(1) show ?thesis by (simp add: js_match_def)
qed

lemma season_loop_skip:
  "\<forall>q\<in>set qs. js_match s (regex q) = None \<Longrightarrow> season_loop (qs @ ps) s = season_loop ps s"
  by (induction qs) auto

lemma season_loop_fired_first:
  assumes "\<forall>p\<in>set ps. \<forall>m. js_match s (regex p) = Some m \<longrightarrow> (\<exists>w. extractor p m = Inr (Some w))"
    and "season_loop ps s = Inr (Some v, s')"
  shows "\<exists>qs p rest m. ps = qs @ p # rest \<and> (\<forall>q\<in>set qs. js_match s (regex q) = None) \<and>
           js_match s (regex p) = Some m \<and> extractor p m = Inr (Some v) \<and>
           s' = trim (replace s (regex p) [])"
  using assms
proof (induction ps)
  case Nil
  then show ?case by simp
next
  case (Cons p ps)
  show ?case
  proof (cases "js_match s (regex p)")
    case None
    with Cons.prems(2) have l: "season_loop ps s = Inr (Some v, s')" by simp
    from Cons.prems(1) have
      "\<forall>p\<in>set ps. \<forall>m. js_match s (regex p) = Some m \<longrightarrow> (\<exists>w. extractor p m = Inr (Some w))"
      by simp
    from Cons.IH[OF this l] obtain qs p' rest m where
      ih: "ps = qs @ p' # rest" "\<forall>q\<in>set qs. js_match s (regex q) = None"
          "js_match s (regex p') = Some m" "extractor p' m = Inr (Some v)"
          "s' = trim (replace s (regex p') [])" by blast
    from ih(1) have 1: "p # ps = (p # qs) @ p' # rest" by simp
    from ih(2) None have 2: "\<forall>q\<in>set (p # qs). js_match s (regex q) = None" by simp
    from 1 2 ih(3,4,5) show ?thesis by blast
  next
    case (Some m)
    with Cons.prems(1) obtain w where w: "extractor p m = Inr (Some w)" by auto
    with Some Cons.prems(2) have r: "w = v" "s' = trim (replace s (regex p) [])" by auto
    have 1: "p # ps = [] @ p # ps" by simp
    have 2: "\<forall>q\<in>set []. js_match s (regex q) = None" by simp
    from 1 2 Some w r show ?thesis by blast
  qed
qed

lemma patterns_fired_first:
  assumes "season_loop patterns s = Inr (Some v, s')"
  shows "\<exists>qs p rest m. patterns = qs @ p # rest \<and> (\<forall>q\<in>set qs. js_match s (regex q) = None) \<and>
           js_match s (regex p) = Some m \<and> extractor p m = Inr (Some v) \<and>
           s' = trim (replace s (regex p) [])"
proof -
  have "\<forall>p\<in>set patterns. \<forall>m. js_match s (regex p) = Some m \<longrightarrow> (\<exists>w. extractor p m = Inr (Some w))"
    using extractor_range by blast
  from season_loop_fired_first[OF this assms] show ?thesis .
qed

lemma bracket_S_form:
  assumes "js_match s re_season_1 = Some m"
  shows "\<exists>c d. m_0 m = [91, c] @ d @ [93] \<and> m_1 m = Some (c # d) \<and> is_S c \<and> d \<noteq> [] \<and>
           length d \<le> 2 \<and> (\<forall>x\<in>set d. is_digit x)"
proof -
  from js_matchD[OF assms] have ma: "match_at re_season_1 s (m_index m) = Some m" by simp
  from match_atD[OF ma] obtain j g where
    1: "(j, g) \<in> set (bt (icase re_season_1) (pat re_season_1) s (m_index m, None))" and
    2: "m_0 m = substring s (m_index m) j" "m_1 m = map_option (\<lambda>(a, b). substring s a b) g"
    by (metis rmatch.select_convs(2,3))
  let ?i = "m_index m"
  from 1 obtain b where
    b: "?i < length s" "s ! ?i = 91" "Suc ?i < length s" "is_S (s ! Suc ?i)"
       "g = Some (Suc ?i, b)" "Suc (Suc ?i) + 1 \<le> b" "b \<le> Suc (Suc ?i) + 2"
       "b \<le> Suc (Suc ?i) + length (takeWhile is_digit (drop (Suc (Suc ?i)) s))"
       "b < length s" "s ! b = 93" "j = Suc b"
    by (auto simp: re_season_1_def plain_def bt_iff lit_eq_def)
  note run = capture_run[OF b(6,7,8)]
  have g: "substring s (Suc ?i) b = s ! Suc ?i # substring s (Suc (Suc ?i)) b"
    using b(3,6) by (intro substring_Cons) auto
  have "substring s ?i (Suc b) = s ! ?i # substring s (Suc ?i) (Suc b)"
    using b(1,6) by (intro substring_Cons) auto
  also have "substring s (Suc ?i) (Suc b) = substring s (Suc ?i) b @ [s ! b]"
    using b(6,9) by (intro substring_snoc) auto
  finally have "m_0 m = [91, s ! Suc ?i] @ substring s (Suc (Suc ?i)) b @ [93]"
    using 2(1) b(2,10,11) g by simp
  moreover have "m_1 m = Some (s ! Suc ?i # substring s (Suc (Suc ?i)) b)" using 2(2) b(5) g by simp
  ultimately show ?thesis using b(4) run by blast
qed

section \<open>Running the parser on concrete titles\<close>

text \<open>The defining equations needed to evaluate each step on a concrete string.\<close>

lemmas ev_re = plain_def lits_def ascii_def seq.simps bt.simps lit_eq_def canon_def
  is_digit_def is_space_def is_word_def is_S_def is_zh_num_def is_trailer_def
  match_at_def exec_from_def js_match_def test_def substring_def

lemmas ev_replace = ev_re replace_def all_matches.simps m_end_def trim_def

lemmas ev_num = parseInt_opt_def parseInt_def digits_val_def chineseNumberToInt_def re_all_digits_def
  startsWith_def endsWith_def indexOf_def chineseNumbers_def lookup_or_def num_or_def truthy_def

lemmas ev_season = ev_replace ev_num patterns_def extract_bracket_S_def extract_int_def extract_chinese_def
  re_S_digits_def re_season_1_def re_season_2_def re_season_3_def re_season_4_def
  re_season_5_def re_season_6_def re_season_7_def re_season_8_def

lemmas ev_year = ev_replace ev_num yearPatterns_def re_year_1_def re_year_2_def re_year_3_def

lemmas ev_clean = ev_replace cleaner_def re_empty_brackets_def re_empty_parens_def re_spaces_def re_trailer_def

lemma parse_Movie_Title_2021:
  "parseSeasonFromTitle (ascii ''Movie_Title_2021'') = Inr \<lparr>cleanTitle = ascii ''Movie Title'', seasonNumber = None, year = Some (Num 2021), originalTitle = ascii ''Movie_Title_2021''\<rparr>"
proof -
  have a: "ascii ''Movie_Title_2021'' = [77, 111, 118, 105, 101, 95, 84, 105, 116, 108, 101, 95, 50, 48, 50, 49]"
    "ascii ''Movie Title'' = [77, 111, 118, 105, 101, 32, 84, 105, 116, 108, 101]"
    by (simp_all add: ascii_def)
  have n: "replace [77, 111, 118, 105, 101, 95, 84, 105, 116, 108, 101, 95, 50, 48, 50, 49] re_underscore [32] = [77, 111, 118, 105, 101, 32, 84, 105, 116, 108, 101, 32, 50, 48, 50, 49]"
    by (simp add: ev_replace re_underscore_def)
  have s: "season_loop patterns [77, 111, 118, 105, 101, 32, 84, 105, 116, 108, 101, 32, 50, 48, 50, 49] = Inr (None, [77, 111, 118, 105, 101, 32, 84, 105, 116, 108, 101, 32, 50, 48, 50, 49])"
    by (simp add: ev_season)
  have y: "year_loop yearPatterns [77, 111, 118, 105, 101, 32, 84, 105, 116, 108, 101, 32, 50, 48, 50, 49] = (Some (Num 2021), [77, 111, 118, 105, 101, 32, 84, 105, 116, 108, 101])"
    by (simp add: ev_year)
  have c: "cleaner [77, 111, 118, 105, 101, 32, 84, 105, 116, 108, 101] = [77, 111, 118, 105, 101, 32, 84, 105, 116, 108, 101]"
    by (simp add: ev_clean)
  show ?thesis by (simp add: parseSeasonFromTitle_def a n s y c)
qed

lemma parse_Breaking_Bad_S01:
  "parseSeasonFromTitle (ascii ''Breaking Bad S01'') = Inr \<lparr>cleanTitle = ascii ''Breaking Bad'', seasonNumber = Some (Num 1), year = None, originalTitle = ascii ''Breaking Bad S01''\<rparr>"
proof -
  have a: "ascii ''Breaking Bad S01'' = [66, 114, 101, 97, 107, 105, 110, 103, 32, 66, 97, 100, 32, 83, 48, 49]"
    "ascii ''Breaking Bad'' = [66, 114, 101, 97, 107, 105, 110, 103, 32, 66, 97, 100]"
    by (simp_all add: ascii_def)
  have n: "replace [66, 114, 101, 97, 107, 105, 110, 103, 32, 66, 97, 100, 32, 83, 48, 49] re_underscore [32] = [66, 114, 101, 97, 107, 105, 110, 103, 32, 66, 97, 100, 32, 83, 48, 49]"
    by (simp add: ev_replace re_underscore_def)
  have s: "season_loop patterns [66, 114, 101, 97, 107, 105, 110, 103, 32, 66, 97, 100, 32, 83, 48, 49] = Inr (Some (Num 1), [66, 114, 101, 97, 107, 105, 110, 103, 32, 66, 97, 100])"
    by (simp add: ev_season)
  have y: "year_loop yearPatterns [66, 114, 101, 97, 107, 105, 110, 103, 32, 66, 97, 100] = (None, [66, 114, 101, 97, 107, 105, 110, 103, 32, 66, 97, 100])"
    by (simp add: ev_year)
  have c: "cleaner [66, 114, 101, 97, 107, 105, 110, 103, 32, 66, 97, 100] = [66, 114, 101, 97, 107, 105, 110, 103, 32, 66, 97, 100]"
    by (simp add: ev_clean)
  show ?thesis by (simp add: parseSeasonFromTitle_def a n s y c)
qed

lemma parse_S0:
  "parseSeasonFromTitle (ascii ''S0'') = Inr \<lparr>cleanTitle = [], seasonNumber = Some (Num 0), year = None, originalTitle = ascii ''S0''\<rparr>"
proof -
  have a: "ascii ''S0'' = [83, 48]"
    by (simp_all add: ascii_def)
  have n: "replace [83, 48] re_underscore [32] = [83, 48]"
    by (simp add: ev_replace re_underscore_def)
  have s: "season_loop patterns [83, 48] = Inr (Some (Num 0), [])"
    by (simp add: ev_season)
  have y: "year_loop yearPatterns [] = (None, [])"
    by (simp add: ev_year)
  have c: "cleaner [] = []"
    by (simp add: ev_clean)
  show ?thesis by (simp add: parseSeasonFromTitle_def a n s y c)
qed

lemma parse_zh_0:
  "parseSeasonFromTitle [zhDi, 48, zhJi] = Inr \<lparr>cleanTitle = [], seasonNumber = Some (Num 0), year = None, originalTitle = [zhDi, 48, zhJi]\<rparr>"
proof -
  have n: "replace [zhDi, 48, zhJi] re_underscore [32] = [zhDi, 48, zhJi]"
    by (simp add: ev_replace re_underscore_def)
  have s: "season_loop patterns [zhDi, 48, zhJi] = Inr (Some (Num 0), [])"
    by (simp add: ev_season)
  have y: "year_loop yearPatterns [] = (None, [])"
    by (simp add: ev_year)
  have c: "cleaner [] = []"
    by (simp add: ev_clean)
  show ?thesis by (simp add: parseSeasonFromTitle_def n s y c)
qed

lemma parse_empty:
  "parseSeasonFromTitle [] = Inr \<lparr>cleanTitle = [], seasonNumber = None, year = None, originalTitle = []\<rparr>"
proof -
  have n: "replace [] re_underscore [32] = []"
    by (simp add: ev_replace re_underscore_def)
  have s: "season_loop patterns [] = Inr (None, [])"
    by (simp add: ev_season)
  have y: "year_loop yearPatterns [] = (None, [])"
    by (simp add: ev_year)
  have c: "cleaner [] = []"
    by (simp add: ev_clean)
  show ?thesis by (simp add: parseSeasonFromTitle_def n s y c)
qed

lemma parse_S01_S01:
  "parseSeasonFromTitle (ascii ''S01 S01'') = Inr \<lparr>cleanTitle = ascii ''S01'', seasonNumber = Some (Num 1), year = None, originalTitle = ascii ''S01 S01''\<rparr>"
proof -
  have a: "ascii ''S01 S01'' = [83, 48, 49, 32, 83, 48, 49]"
    "ascii ''S01'' = [83, 48, 49]"
    by (simp_all add: ascii_def)
  have n: "replace [83, 48, 49, 32, 83, 48, 49] re_underscore [32] = [83, 48, 49, 32, 83, 48, 49]"
    by (simp add: ev_replace re_underscore_def)
  have s: "season_loop patterns [83, 48, 49, 32, 83, 48, 49] = Inr (Some (Num 1), [83, 48, 49])"
    by (simp add: ev_season)
  have y: "year_loop yearPatterns [83, 48, 49] = (None, [83, 48, 49])"
    by (simp add: ev_year)
  have c: "cleaner [83, 48, 49] = [83, 48, 49]"
    by (simp add: ev_clean)
  show ?thesis by (simp add: parseSeasonFromTitle_def a n s y c)
qed

lemma parse_S01_S02:
  "parseSeasonFromTitle (ascii ''S01 S02'') = Inr \<lparr>cleanTitle = ascii ''S02'', seasonNumber = Some (Num 1), year = None, originalTitle = ascii ''S01 S02''\<rparr>"
proof -
  have a: "ascii ''S01 S02'' = [83, 48, 49, 32, 83, 48, 50]"
    "ascii ''S02'' = [83, 48, 50]"
    by (simp_all add: ascii_def)
  have n: "replace [83, 48, 49, 32, 83, 48, 50] re_underscore [32] = [83, 48, 49, 32, 83, 48, 50]"
    by (simp add: ev_replace re_underscore_def)
  have s: "season_loop patterns [83, 48, 49, 32, 83, 48, 50] = Inr (Some (Num 1), [83, 48, 50])"
    by (simp add: ev_season)
  have y: "year_loop yearPatterns [83, 48, 50] = (None, [83, 48, 50])"
    by (simp add: ev_year)
  have c: "cleaner [83, 48, 50] = [83, 48, 50]"
    by (simp add: ev_clean)
  show ?thesis by (simp add: parseSeasonFromTitle_def a n s y c)
qed

lemma parse_S02:
  "parseSeasonFromTitle (ascii ''S02'') = Inr \<lparr>cleanTitle = [], seasonNumber = Some (Num 2), year = None, originalTitle = ascii ''S02''\<rparr>"
proof -
  have a: "ascii ''S02'' = [83, 48, 50]"
    by (simp_all add: ascii_def)
  have n: "replace [83, 48, 50] re_underscore [32] = [83, 48, 50]"
    by (simp add: ev_replace re_underscore_def)
  have s: "season_loop patterns [83, 48, 50] = Inr (Some (Num 2), [])"
    by (simp add: ev_season)
  have y: "year_loop yearPatterns [] = (None, [])"
    by (simp add: ev_year)
  have c: "cleaner [] = []"
    by (simp add: ev_clean)
  show ?thesis by (simp add: parseSeasonFromTitle_def a n s y c)
qed

lemma parse_bracket_S02_S03:
  "parseSeasonFromTitle (ascii ''[S02] S03'') = Inr \<lparr>cleanTitle = ascii ''S03'', seasonNumber = Some (Num 2), year = None, originalTitle = ascii ''[S02] S03''\<rparr>"
proof -
  have a: "ascii ''[S02] S03'' = [91, 83, 48, 50, 93, 32, 83, 48, 51]"
    "ascii ''S03'' = [83, 48, 51]"
    by (simp_all add: ascii_def)
  have n: "replace [91, 83, 48, 50, 93, 32, 83, 48, 51] re_underscore [32] = [91, 83, 48, 50, 93, 32, 83, 48, 51]"
    by (simp add: ev_replace re_underscore_def)
  have s: "season_loop patterns [91, 83, 48, 50, 93, 32, 83, 48, 51] = Inr (Some (Num 2), [83, 48, 51])"
    by (simp add: ev_season)
  have y: "year_loop yearPatterns [83, 48, 51] = (None, [83, 48, 51])"
    by (simp add: ev_year)
  have c: "cleaner [83, 48, 51] = [83, 48, 51]"
    by (simp add: ev_clean)
  show ?thesis by (simp add: parseSeasonFromTitle_def a n s y c)
qed

lemma parse_1234_2020:
  "parseSeasonFromTitle (ascii ''1234 2020'') = Inr \<lparr>cleanTitle = ascii ''1234 2020'', seasonNumber = None, year = None, originalTitle = ascii ''1234 2020''\<rparr>"
proof -
  have a: "ascii ''1234 2020'' = [49, 50, 51, 52, 32, 50, 48, 50, 48]"
    by (simp_all add: ascii_def)
  have n: "replace [49, 50, 51, 52, 32, 50, 48, 50, 48] re_underscore [32] = [49, 50, 51, 52, 32, 50, 48, 50, 48]"
    by (simp add: ev_replace re_underscore_def)
  have s: "season_loop patterns [49, 50, 51, 52, 32, 50, 48, 50, 48] = Inr (None, [49, 50, 51, 52, 32, 50, 48, 50, 48])"
    by (simp add: ev_season)
  have y: "year_loop yearPatterns [49, 50, 51, 52, 32, 50, 48, 50, 48] = (None, [49, 50, 51, 52, 32, 50, 48, 50, 48])"
    by (simp add: ev_year)
  have c: "cleaner [49, 50, 51, 52, 32, 50, 48, 50, 48] = [49, 50, 51, 52, 32, 50, 48, 50, 48]"
    by (simp add: ev_clean)
  show ?thesis by (simp add: parseSeasonFromTitle_def a n s y c)
qed

lemma parse_zh_21:
  "parseSeasonFromTitle [zhDi, zh2, zh10, zh1, zhJi] = Inr \<lparr>cleanTitle = [zhDi, zh2, zh10, zh1, zhJi], seasonNumber = None, year = None, originalTitle = [zhDi, zh2, zh10, zh1, zhJi]\<rparr>"
proof -
  have n: "replace [zhDi, zh2, zh10, zh1, zhJi] re_underscore [32] = [zhDi, zh2, zh10, zh1, zhJi]"
    by (simp add: ev_replace re_underscore_def)
  have s: "season_loop patterns [zhDi, zh2, zh10, zh1, zhJi] = Inr (None, [zhDi, zh2, zh10, zh1, zhJi])"
    by (simp add: ev_season)
  have y: "year_loop yearPatterns [zhDi, zh2, zh10, zh1, zhJi] = (None, [zhDi, zh2, zh10, zh1, zhJi])"
    by (simp add: ev_year)
  have c: "cleaner [zhDi, zh2, zh10, zh1, zhJi] = [zhDi, zh2, zh10, zh1, zhJi]"
    by (simp add: ev_clean)
  show ?thesis by (simp add: parseSeasonFromTitle_def n s y c)
qed

lemma match_S01_S01_rule1:
  "js_match (ascii ''S01 S01'') re_season_1 = None"
proof -
  have a: "ascii ''S01 S01'' = [83, 48, 49, 32, 83, 48, 49]"
    by (simp_all add: ascii_def)
  have "js_match [83, 48, 49, 32, 83, 48, 49] re_season_1 = None"
    by (simp add: ev_re re_season_1_def)
  then show ?thesis by (simp add: a)
qed

lemma match_S01_S01_rule2:
  "js_match (ascii ''S01 S01'') re_season_2 = Some \<lparr>m_index = 0, m_0 = ascii ''S01'', m_1 = Some (ascii ''01'')\<rparr>"
proof -
  have a: "ascii ''S01 S01'' = [83, 48, 49, 32, 83, 48, 49]"
    "ascii ''S01'' = [83, 48, 49]"
    "ascii ''01'' = [48, 49]"
    by (simp_all add: ascii_def)
  have "js_match [83, 48, 49, 32, 83, 48, 49] re_season_2 = Some \<lparr>m_index = 0, m_0 = [83, 48, 49], m_1 = Some [48, 49]\<rparr>"
    by (simp add: ev_re re_season_2_def)
  then show ?thesis by (simp add: a)
qed

lemma match_S01_S02_rule1:
  "js_match (ascii ''S01 S02'') re_season_1 = None"
proof -
  have a: "ascii ''S01 S02'' = [83, 48, 49, 32, 83, 48, 50]"
    by (simp_all add: ascii_def)
  have "js_match [83, 48, 49, 32, 83, 48, 50] re_season_1 = None"
    by (simp add: ev_re re_season_1_def)
  then show ?thesis by (simp add: a)
qed

lemma match_S01_S02_rule2:
  "js_match (ascii ''S01 S02'') re_season_2 = Some \<lparr>m_index = 0, m_0 = ascii ''S01'', m_1 = Some (ascii ''01'')\<rparr>"
proof -
  have a: "ascii ''S01 S02'' = [83, 48, 49, 32, 83, 48, 50]"
    "ascii ''S01'' = [83, 48, 49]"
    "ascii ''01'' = [48, 49]"
    by (simp_all add: ascii_def)
  have "js_match [83, 48, 49, 32, 83, 48, 50] re_season_2 = Some \<lparr>m_index = 0, m_0 = [83, 48, 49], m_1 = Some [48, 49]\<rparr>"
    by (simp add: ev_re re_season_2_def)
  then show ?thesis by (simp add: a)
qed

lemma match_S02_rule2:
  "js_match (ascii ''S02'') re_season_2 = Some \<lparr>m_index = 0, m_0 = ascii ''S02'', m_1 = Some (ascii ''02'')\<rparr>"
proof -
  have a: "ascii ''S02'' = [83, 48, 50]"
    "ascii ''02'' = [48, 50]"
    by (simp_all add: ascii_def)
  have "js_match [83, 48, 50] re_season_2 = Some \<lparr>m_index = 0, m_0 = [83, 48, 50], m_1 = Some [48, 50]\<rparr>"
    by (simp add: ev_re re_season_2_def)
  then show ?thesis by (simp add: a)
qed

lemma match_bracket_S02_S03_rule1:
  "js_match (ascii ''[S02] S03'') re_season_1 = Some \<lparr>m_index = 0, m_0 = ascii ''[S02]'', m_1 = Some (ascii ''S02'')\<rparr>"
proof -
  have a: "ascii ''[S02] S03'' = [91, 83, 48, 50, 93, 32, 83, 48, 51]"
    "ascii ''[S02]'' = [91, 83, 48, 50, 93]"
    "ascii ''S02'' = [83, 48, 50]"
    by (simp_all add: ascii_def)
  have "js_match [91, 83, 48, 50, 93, 32, 83, 48, 51] re_season_1 = Some \<lparr>m_index = 0, m_0 = [91, 83, 48, 50, 93], m_1 = Some [83, 48, 50]\<rparr>"
    by (simp add: ev_re re_season_1_def)
  then show ?thesis by (simp add: a)
qed

lemma match_bracket_S02_S03_rule2:
  "js_match (ascii ''[S02] S03'') re_season_2 = Some \<lparr>m_index = 1, m_0 = ascii ''S02'', m_1 = Some (ascii ''02'')\<rparr>"
proof -
  have a: "ascii ''[S02] S03'' = [91, 83, 48, 50, 93, 32, 83, 48, 51]"
    "ascii ''S02'' = [83, 48, 50]"
    "ascii ''02'' = [48, 50]"
    by (simp_all add: ascii_def)
  have "js_match [91, 83, 48, 50, 93, 32, 83, 48, 51] re_season_2 = Some \<lparr>m_index = 1, m_0 = [83, 48, 50], m_1 = Some [48, 50]\<rparr>"
    by (simp add: ev_re re_season_2_def)
  then show ?thesis by (simp add: a)
qed

lemma match_1234_2020_year1:
  "js_match (ascii ''1234 2020'') re_year_1 = None"
proof -
  have a: "ascii ''1234 2020'' = [49, 50, 51, 52, 32, 50, 48, 50, 48]"
    by (simp_all add: ascii_def)
  have "js_match [49, 50, 51, 52, 32, 50, 48, 50, 48] re_year_1 = None"
    by (simp add: ev_re re_year_1_def)
  then show ?thesis by (simp add: a)
qed

lemma match_1234_2020_year2:
  "js_match (ascii ''1234 2020'') re_year_2 = None"
proof -
  have a: "ascii ''1234 2020'' = [49, 50, 51, 52, 32, 50, 48, 50, 48]"
    by (simp_all add: ascii_def)
  have "js_match [49, 50, 51, 52, 32, 50, 48, 50, 48] re_year_2 = None"
    by (simp add: ev_re re_year_2_def)
  then show ?thesis by (simp add: a)
qed

lemma match_1234_2020_year3:
  "js_match (ascii ''1234 2020'') re_year_3 = Some \<lparr>m_index = 0, m_0 = ascii ''1234'', m_1 = Some (ascii ''1234'')\<rparr>"
proof -
  have a: "ascii ''1234 2020'' = [49, 50, 51, 52, 32, 50, 48, 50, 48]"
    "ascii ''1234'' = [49, 50, 51, 52]"
    by (simp_all add: ascii_def)
  have "js_match [49, 50, 51, 52, 32, 50, 48, 50, 48] re_year_3 = Some \<lparr>m_index = 0, m_0 = [49, 50, 51, 52], m_1 = Some [49, 50, 51, 52]\<rparr>"
    by (simp add: ev_re re_year_3_def)
  then show ?thesis by (simp add: a)
qed

lemma match_zh_1_rule6:
  "js_match [zhDi, zh1, zhJi] re_season_6 = Some \<lparr>m_index = 0, m_0 = [zhDi, zh1, zhJi], m_1 = Some [zh1]\<rparr>"
proof -
  have "js_match [zhDi, zh1, zhJi] re_season_6 = Some \<lparr>m_index = 0, m_0 = [zhDi, zh1, zhJi], m_1 = Some [zh1]\<rparr>"
    by (simp add: ev_re re_season_6_def)
  then show ?thesis by simp
qed

section \<open>The numeral converter on its vocabulary\<close>

text \<open>
  Claim C5. \<open>chineseNumberToInt\<close> returns the mathematically correct value on the supported
  vocabulary: the digit for \<open>t\<close> gives \<open>t\<close>, ten gives 10, ten followed by the digit for
  \<open>u\<close> gives \<open>10 + u\<close>, the digit for \<open>t\<close> followed by ten gives \<open>t * 10\<close>, and the digit
  for \<open>t\<close>, ten, the digit for \<open>u\<close> gives \<open>10 * t + u\<close>, for all \<open>t\<close> and \<open>u\<close> from 1 to 9.
\<close>

theorem chineseNumberToInt_vocabulary:
  "\<forall>t\<in>{1..9}. \<forall>u\<in>{1..9}.
     chineseNumberToInt [zh_digit t] = Num (int t) \<and>
     chineseNumberToInt [zh10] = Num 10 \<and>
     chineseNumberToInt [zh10, zh_digit u] = Num (10 + int u) \<and>
     chineseNumberToInt [zh_digit t, zh10] = Num (int t * 10) \<and>
     chineseNumberToInt [zh_digit t, zh10, zh_digit u] = Num (10 * int t + int u)"
proof (intro ballI)
  fix t u :: nat
  assume t: "t \<in> {1..9}" and u: "u \<in> {1..9}"
  have t0: "int t \<noteq> 0" and u0: "int u \<noteq> 0" using t u by auto
  note ft = zh_digit_facts[OF t] and fu = zh_digit_facts[OF u]
  have "chineseNumberToInt [zh_digit t] = Num (int t)"
    by (rule conv_single[OF ft(1) t0 ft(2) ft(3)])
  moreover have "chineseNumberToInt [zh10, zh_digit u] = Num (10 + int u)"
    by (rule conv_ten_unit[OF fu(1) u0])
  moreover have "chineseNumberToInt [zh_digit t, zh10] = Num (int t * 10)"
    by (rule conv_tens_ten[OF ft(1) t0 ft(2) ft(3)])
  moreover have "chineseNumberToInt [zh_digit t, zh10, zh_digit u] = Num (int t * 10 + int u)"
    by (rule conv_tens_ten_unit[OF ft(1) t0 ft(2) ft(3) fu(1) u0 fu(2)])
  ultimately show "chineseNumberToInt [zh_digit t] = Num (int t) \<and>
     chineseNumberToInt [zh10] = Num 10 \<and>
     chineseNumberToInt [zh10, zh_digit u] = Num (10 + int u) \<and>
     chineseNumberToInt [zh_digit t, zh10] = Num (int t * 10) \<and>
     chineseNumberToInt [zh_digit t, zh10, zh_digit u] = Num (10 * int t + int u)"
    using conv_ten by (simp add: mult.commute)
qed

theorem chineseNumberToInt_vocabulary_witness:
  "(3::nat) \<in> {1..9} \<and> (2::nat) \<in> {1..9} \<and>
   chineseNumberToInt [zh3] = Num 3 \<and> chineseNumberToInt [zh10] = Num 10 \<and>
   chineseNumberToInt [zh10, zh2] = Num 12 \<and> chineseNumberToInt [zh3, zh10] = Num 30 \<and>
   chineseNumberToInt [zh3, zh10, zh2] = Num 32"
proof -
  have m: "(3::nat) \<in> {1..9}" "(2::nat) \<in> {1..9}" by simp_all
  have z: "zh_digit 3 = zh3" "zh_digit 2 = zh2" by (simp_all add: zh_digit_def)
  from chineseNumberToInt_vocabulary m have
    "chineseNumberToInt [zh_digit 3] = Num (int 3) \<and>
     chineseNumberToInt [zh10] = Num 10 \<and>
     chineseNumberToInt [zh10, zh_digit 2] = Num (10 + int 2) \<and>
     chineseNumberToInt [zh_digit 3, zh10] = Num (int 3 * 10) \<and>
     chineseNumberToInt [zh_digit 3, zh10, zh_digit 2] = Num (10 * int 3 + int 2)"
    by blast
  with m show ?thesis by (simp add: z)
qed

section \<open>The clean title and the original title\<close>

text \<open>
  Claim C1, as the spec states it: the clean title is a subsequence of the original title.
  It fails, because the parser writes spaces: for the spec's own example \<^verbatim>\<open>Movie_Title_2021\<close>
  the clean title is \<^verbatim>\<open>Movie Title\<close>, and the original title has no space.
\<close>

theorem cleanTitle_subseq_counterexample:
  "parseSeasonFromTitle (ascii ''Movie_Title_2021'') =
     Inr \<lparr>cleanTitle = ascii ''Movie Title'', seasonNumber = None, year = Some (Num 2021),
          originalTitle = ascii ''Movie_Title_2021''\<rparr> \<and>
   \<not> subseq (ascii ''Movie Title'') (ascii ''Movie_Title_2021'')"
proof -
  have "\<not> subseq (ascii ''Movie Title'') (ascii ''Movie_Title_2021'')"
    by (simp add: ascii_def)
  with parse_Movie_Title_2021 show ?thesis by simp
qed

text \<open>
  Claim C1, amended: the clean title is a subsequence of the original title in which every
  underscore and every white-space character has been replaced by a space. Apart from
  that replacement no character is added and none is reordered.
\<close>

theorem cleanTitle_subseq_blanked:
  "parseSeasonFromTitle t = Inr r \<Longrightarrow> subseq (cleanTitle r) (map blank t)"
proof -
  let ?sp = "\<lambda>c. if is_space c then 32 else (c::nat)"
  let ?un = "\<lambda>c. if c = 95 then 32 else (c::nat)"
  assume "parseSeasonFromTitle t = Inr r"
  then obtain s1 s2 where
    l: "season_loop patterns (replace t re_underscore [32]) = Inr (seasonNumber r, s1)" and
    y: "year_loop yearPatterns s1 = (year r, s2)" and c: "cleanTitle r = cleaner s2"
    by (rule parseD)
  have "subseq s2 s1" using y by (rule year_loop_subseq)
  moreover have "subseq s1 (replace t re_underscore [32])" using l by (rule season_loop_subseq)
  ultimately have "subseq s2 (replace t re_underscore [32])" by (rule subseq_order.order_trans)
  then have "subseq s2 (map ?un t)" using subseq_normalize by (rule subseq_order.order_trans)
  then have "subseq (map ?sp s2) (map ?sp (map ?un t))" by (rule subseq_map)
  with subseq_cleaner[of s2] have f: "subseq (cleaner s2) (map ?sp (map ?un t))"
    by (rule subseq_order.order_trans)
  have e: "map ?sp (map ?un t) = map blank t"
    by (auto simp: blank_def is_space_def)
  have "subseq (cleaner s2) (map blank t)" using f unfolding e .
  with c show ?thesis by simp
qed

theorem cleanTitle_subseq_blanked_witness:
  "parseSeasonFromTitle (ascii ''Movie_Title_2021'') =
     Inr \<lparr>cleanTitle = ascii ''Movie Title'', seasonNumber = None, year = Some (Num 2021),
          originalTitle = ascii ''Movie_Title_2021''\<rparr> \<and>
   subseq (ascii ''Movie Title'') (map blank (ascii ''Movie_Title_2021''))"
  using cleanTitle_subseq_blanked[OF parse_Movie_Title_2021] parse_Movie_Title_2021 by simp

section \<open>What the season step removes\<close>

text \<open>
  Claim C2, as the spec states it: the clean title contains no occurrence of the substring
  that the season rule matched and removed. It fails when the token occurs twice: on
  \<^verbatim>\<open>S01 S01\<close> the bare Latin rule matches the first \<^verbatim>\<open>S01\<close> (the bracketed rule does not
  match), only that occurrence is removed, and the clean title is the second \<^verbatim>\<open>S01\<close>.
\<close>

theorem season_token_survives_counterexample:
  "js_match (ascii ''S01 S01'') re_season_1 = None \<and>
   js_match (ascii ''S01 S01'') re_season_2 = Some \<lparr>m_index = 0, m_0 = ascii ''S01'', m_1 = Some (ascii ''01'')\<rparr> \<and>
   parseSeasonFromTitle (ascii ''S01 S01'') = Inr \<lparr>cleanTitle = ascii ''S01'', seasonNumber = Some (Num 1), year = None, originalTitle = ascii ''S01 S01''\<rparr> \<and>
   sublist (ascii ''S01'') (ascii ''S01'')"
  using match_S01_S01_rule1 match_S01_S01_rule2 parse_S01_S01 by simp

text \<open>
  Claim C2, amended: when a season rule fires, the occurrence it matched (the leftmost
  match of the first matching rule, a non-empty token) is cut out of the normalised title:
  the normalised title is \<open>before @ token @ after\<close>, and the year step and the cleaner then
  work on \<open>trim (before @ after)\<close>. Further copies of the token are not removed.

  In the theorem the pattern table is \<open>qs @ p # ps\<close>, no pattern of \<open>qs\<close> matches the
  normalised title, \<open>p\<close> matches it with the match \<open>m\<close>, and \<open>p\<close> matches at no position
  before \<open>m_index m\<close>: \<open>p\<close> is the first matching rule and \<open>m\<close> its leftmost match.
\<close>

theorem season_token_cut:
  "parseSeasonFromTitle t = Inr r \<Longrightarrow> seasonNumber r = Some v \<Longrightarrow>
   (\<exists>qs p ps m s2.
      patterns = qs @ p # ps \<and> (\<forall>q\<in>set qs. js_match (normalized t) (regex q) = None) \<and>
      js_match (normalized t) (regex p) = Some m \<and>
      (\<forall>i<m_index m. match_at (regex p) (normalized t) i = None) \<and>
      extractor p m = Inr (Some v) \<and> m_0 m \<noteq> [] \<and>
      normalized t = take (m_index m) (normalized t) @ m_0 m @ drop (m_end m) (normalized t) \<and>
      year_loop yearPatterns (trim (take (m_index m) (normalized t) @ drop (m_end m) (normalized t))) = (year r, s2) \<and>
      cleanTitle r = cleaner s2)"
proof -
  assume p: "parseSeasonFromTitle t = Inr r" and v: "seasonNumber r = Some v"
  from p obtain s1 s2 where
    l: "season_loop patterns (normalized t) = Inr (seasonNumber r, s1)" and
    y: "year_loop yearPatterns s1 = (year r, s2)" and c: "cleanTitle r = cleaner s2"
    by (rule parseD)
  from l v have "season_loop patterns (normalized t) = Inr (Some v, s1)" by simp
  from patterns_fired_first[OF this] obtain qs p ps m where
    f: "patterns = qs @ p # ps" "\<forall>q\<in>set qs. js_match (normalized t) (regex q) = None"
       "js_match (normalized t) (regex p) = Some m" "extractor p m = Inr (Some v)"
       "s1 = trim (replace (normalized t) (regex p) [])" by blast
  have mem: "p \<in> set patterns" by (subst f(1)) simp
  note cut = replace_first_cut[OF patterns_not_global[OF mem] f(3)]
  from f(3) have "exec_from (regex p) (normalized t) 0 = Some m" by (simp add: js_match_def)
  from exec_fromD[OF this] have
    ma: "match_at (regex p) (normalized t) (m_index m) = Some m" "m_index m \<le> length (normalized t)"
    and first: "\<forall>i<m_index m. match_at (regex p) (normalized t) i = None"
    by auto
  from season_match_nonempty[OF ma patterns_regex[OF mem]] have ne: "m_0 m \<noteq> []"
    by (auto simp: m_end_def)
  from y f(5) cut(1) have
    y': "year_loop yearPatterns (trim (take (m_index m) (normalized t) @ drop (m_end m) (normalized t))) = (year r, s2)"
    by simp
  from f(1,2,3) first f(4) ne cut(2) y' c show ?thesis by blast
qed

theorem season_token_cut_witness:
  "parseSeasonFromTitle (ascii ''S01 S01'') = Inr \<lparr>cleanTitle = ascii ''S01'', seasonNumber = Some (Num 1), year = None, originalTitle = ascii ''S01 S01''\<rparr> \<and>
   js_match (ascii ''S01 S01'') re_season_1 = None \<and>
   js_match (ascii ''S01 S01'') re_season_2 = Some \<lparr>m_index = 0, m_0 = ascii ''S01'', m_1 = Some (ascii ''01'')\<rparr> \<and>
   (\<exists>qs p ps m s2.
      patterns = qs @ p # ps \<and> (\<forall>q\<in>set qs. js_match (normalized (ascii ''S01 S01'')) (regex q) = None) \<and>
      js_match (normalized (ascii ''S01 S01'')) (regex p) = Some m \<and>
      (\<forall>i<m_index m. match_at (regex p) (normalized (ascii ''S01 S01'')) i = None) \<and>
      extractor p m = Inr (Some (Num 1)) \<and> m_0 m \<noteq> [] \<and>
      normalized (ascii ''S01 S01'') =
        take (m_index m) (normalized (ascii ''S01 S01'')) @ m_0 m @ drop (m_end m) (normalized (ascii ''S01 S01'')) \<and>
      year_loop yearPatterns
        (trim (take (m_index m) (normalized (ascii ''S01 S01'')) @ drop (m_end m) (normalized (ascii ''S01 S01'')))) = (None, s2) \<and>
      ascii ''S01'' = cleaner s2)"
  using season_token_cut[OF parse_S01_S01, of "Num 1"] parse_S01_S01
    match_S01_S01_rule1 match_S01_S01_rule2
  by simp

section \<open>The range of the season number\<close>

text \<open>
  Claim C3, as the spec states it: a season number that is present is at least 1. It fails:
  the two-digit capture admits the numeral 0, and both the title \<^verbatim>\<open>S0\<close> and the title made
  of the ordinal prefix, the digit 0 and the season character give the season number 0.
\<close>

theorem seasonNumber_zero_counterexample:
  "parseSeasonFromTitle (ascii ''S0'') = Inr \<lparr>cleanTitle = [], seasonNumber = Some (Num 0), year = None, originalTitle = ascii ''S0''\<rparr> \<and>
   parseSeasonFromTitle [zhDi, 48, zhJi] = Inr \<lparr>cleanTitle = [], seasonNumber = Some (Num 0), year = None, originalTitle = [zhDi, 48, zhJi]\<rparr> \<and>
   \<not> (1 \<le> (0::int))"
  using parse_S0 parse_zh_0 by simp

text \<open>
  Claim C3, amended: a season number that is present is an integer from 0 to 99, never
  NaN; the value 0 occurs.
\<close>

theorem seasonNumber_range:
  "parseSeasonFromTitle t = Inr r \<Longrightarrow> seasonNumber r = Some n \<Longrightarrow> \<exists>v. n = Num v \<and> 0 \<le> v \<and> v \<le> 99"
proof -
  assume p: "parseSeasonFromTitle t = Inr r" and n: "seasonNumber r = Some n"
  from p obtain s1 where "season_loop patterns (replace t re_underscore [32]) = Inr (seasonNumber r, s1)"
    by (rule parseD)
  with n season_loop_patterns[of "replace t re_underscore [32]"] show ?thesis by auto
qed

theorem seasonNumber_range_witness:
  "parseSeasonFromTitle (ascii ''Breaking Bad S01'') = Inr \<lparr>cleanTitle = ascii ''Breaking Bad'', seasonNumber = Some (Num 1), year = None, originalTitle = ascii ''Breaking Bad S01''\<rparr> \<and>
   (\<exists>v. Num 1 = Num v \<and> 0 \<le> v \<and> v \<le> 99)"
  using seasonNumber_range[OF parse_Breaking_Bad_S01, of "Num 1"] parse_Breaking_Bad_S01 by simp

section \<open>The year scan\<close>

text \<open>
  Claim C4. When the season-reduced title has no bracket-wrapped and no paren-wrapped
  four-digit run, and its first bare four-digit run delimited by word boundaries has a
  value outside 1900..2100, the year is absent and year extraction leaves the title
  unchanged: the cleaner receives the season-reduced title. A later four-digit run in the
  range does not change this.
\<close>

theorem year_scan_pattern_class:
  assumes "season_loop patterns (normalized t) = Inr (sn, s1)"
    and "js_match s1 re_year_1 = None" and "js_match s1 re_year_2 = None"
    and "js_match s1 re_year_3 = Some m" and "m_1 m = Some d" and "parseInt d = Num v"
    and "v < 1900 \<or> 2100 < v"
  shows "year_loop yearPatterns s1 = (None, s1) \<and>
         parseSeasonFromTitle t =
           Inr \<lparr>cleanTitle = cleaner s1, seasonNumber = sn, year = None, originalTitle = t\<rparr>"
proof -
  from assms(5,6,7) have "\<not> (num_ge (parseInt_opt (m_1 m)) 1900 \<and> num_le (parseInt_opt (m_1 m)) 2100)"
    by (auto simp: parseInt_opt_def)
  with assms(2,3,4) have y: "year_loop yearPatterns s1 = (None, s1)"
    by (auto simp: yearPatterns_def Let_def)
  with assms(1) show ?thesis by (simp add: parseSeasonFromTitle_def)
qed

theorem year_scan_pattern_class_witness:
  "js_match (ascii ''1234 2020'') re_year_1 = None \<and>
   js_match (ascii ''1234 2020'') re_year_2 = None \<and>
   js_match (ascii ''1234 2020'') re_year_3 = Some \<lparr>m_index = 0, m_0 = ascii ''1234'', m_1 = Some (ascii ''1234'')\<rparr> \<and>
   year_loop yearPatterns (ascii ''1234 2020'') = (None, ascii ''1234 2020'') \<and>
   parseSeasonFromTitle (ascii ''1234 2020'') = Inr \<lparr>cleanTitle = ascii ''1234 2020'', seasonNumber = None, year = None, originalTitle = ascii ''1234 2020''\<rparr>"
proof -
  have a: "ascii ''1234 2020'' = [49, 50, 51, 52, 32, 50, 48, 50, 48]" "ascii ''1234'' = [49, 50, 51, 52]"
    by (simp_all add: ascii_def)
  have s: "season_loop patterns (normalized (ascii ''1234 2020'')) = Inr (None, ascii ''1234 2020'')"
    unfolding a by (simp add: ev_season re_underscore_def)
  have p: "parseInt (ascii ''1234'') = Num 1234"
    unfolding a by (simp add: ev_num is_digit_def is_space_def)
  have c: "cleaner (ascii ''1234 2020'') = ascii ''1234 2020''"
    unfolding a by (simp add: ev_clean)
  from year_scan_pattern_class[OF s match_1234_2020_year1 match_1234_2020_year2 match_1234_2020_year3 _ p]
  have "year_loop yearPatterns (ascii ''1234 2020'') = (None, ascii ''1234 2020'') \<and>
        parseSeasonFromTitle (ascii ''1234 2020'') =
          Inr \<lparr>cleanTitle = cleaner (ascii ''1234 2020''), seasonNumber = None, year = None,
               originalTitle = ascii ''1234 2020''\<rparr>"
    by simp
  with c match_1234_2020_year1 match_1234_2020_year2 match_1234_2020_year3 show ?thesis by simp
qed

section \<open>Rule priority\<close>

text \<open>
  Claim C6. When the title contains a bracket-wrapped Latin season marker, that is
  \<^verbatim>\<open>[\<close>, \<^verbatim>\<open>S\<close> or \<^verbatim>\<open>s\<close>, one or two digits and \<^verbatim>\<open>]\<close>, the season number is the number of the
  leftmost such marker, whatever else the title contains, a bare Latin marker included.
  In general the first pattern of the table that matches ends the loop: its extractor
  yields a number, and the result is the same for every list of later patterns.
\<close>

theorem bracket_rule_priority:
  "(t = pre @ [91, c] @ d @ [93] @ post \<and> is_S c \<and> d \<noteq> [] \<and> length d \<le> 2 \<and> (\<forall>x\<in>set d. is_digit x) \<longrightarrow>
      (\<exists>m c' d' v. js_match (normalized t) re_season_1 = Some m \<and> m_0 m = [91, c'] @ d' @ [93] \<and>
         is_S c' \<and> parseInt d' = Num v \<and>
         (\<exists>r. parseSeasonFromTitle t = Inr r \<and> seasonNumber r = Some (Num v)))) \<and>
   (patterns = qs @ p # ps \<and> (\<forall>q\<in>set qs. js_match s (regex q) = None) \<and> js_match s (regex p) = Some m' \<longrightarrow>
      (\<exists>v. extractor p m' = Inr (Some (Num v)) \<and>
         (\<forall>ps'. season_loop (qs @ p # ps') s = Inr (Some (Num v), trim (replace s (regex p) [])))))"
proof (intro conjI impI)
  assume a: "t = pre @ [91, c] @ d @ [93] @ post \<and> is_S c \<and> d \<noteq> [] \<and> length d \<le> 2 \<and> (\<forall>x\<in>set d. is_digit x)"
  let ?f = "\<lambda>c. if c = 95 then 32 else (c::nat)"
  from a have "?f c = c" "map ?f d = d"
    by (auto simp: is_S_def is_digit_def intro!: map_idI)
  with a have "normalized t = map ?f pre @ [91, c] @ d @ [93] @ map ?f post"
    by (simp add: normalized_eq)
  from bracket_marker_found[OF this] a obtain m where m: "js_match (normalized t) re_season_1 = Some m"
    by blast
  from bracket_S_form[OF m] obtain c' d' where
    f: "m_0 m = [91, c'] @ d' @ [93]" "m_1 m = Some (c' # d')" "is_S c'" by blast
  from bracket_first[OF m] f(2) obtain v where
    v: "parseInt d' = Num v" "extract_bracket_S m = Inr (Some (Num v))" by auto
  have "season_loop (\<lparr>regex = re_season_1, extractor = extract_bracket_S\<rparr> # tl patterns) (normalized t) =
      Inr (Some (Num v), trim (replace (normalized t) re_season_1 []))"
    using m v(2) by simp
  then have "season_loop patterns (normalized t) =
      Inr (Some (Num v), trim (replace (normalized t) re_season_1 []))"
    using patterns_Cons by simp
  then have "\<exists>r. parseSeasonFromTitle t = Inr r \<and> seasonNumber r = Some (Num v)"
    by (cases "year_loop yearPatterns (trim (replace (normalized t) re_season_1 []))")
       (simp add: parseSeasonFromTitle_def)
  with m f v(1) show "\<exists>m c' d' v. js_match (normalized t) re_season_1 = Some m \<and> m_0 m = [91, c'] @ d' @ [93] \<and>
         is_S c' \<and> parseInt d' = Num v \<and>
         (\<exists>r. parseSeasonFromTitle t = Inr r \<and> seasonNumber r = Some (Num v))"
    by blast
next
  assume a: "patterns = qs @ p # ps \<and> (\<forall>q\<in>set qs. js_match s (regex q) = None) \<and> js_match s (regex p) = Some m'"
  then have e: "patterns = qs @ p # ps" by blast
  have "p \<in> set patterns" by (subst e) simp
  from extractor_range[OF this] a obtain v where v: "extractor p m' = Inr (Some (Num v))" by blast
  have "season_loop (qs @ p # ps') s = Inr (Some (Num v), trim (replace s (regex p) []))" for ps'
    using season_loop_skip[of qs s "p # ps'"] a v by simp
  with v show "\<exists>v. extractor p m' = Inr (Some (Num v)) \<and>
         (\<forall>ps'. season_loop (qs @ p # ps') s = Inr (Some (Num v), trim (replace s (regex p) [])))"
    by blast
qed

theorem bracket_rule_priority_witness:
  "ascii ''[S02] S03'' = [] @ [91, 83] @ ascii ''02'' @ [93] @ ascii '' S03'' \<and>
   js_match (ascii ''[S02] S03'') re_season_1 = Some \<lparr>m_index = 0, m_0 = ascii ''[S02]'', m_1 = Some (ascii ''S02'')\<rparr> \<and>
   js_match (ascii ''[S02] S03'') re_season_2 = Some \<lparr>m_index = 1, m_0 = ascii ''S02'', m_1 = Some (ascii ''02'')\<rparr> \<and>
   parseSeasonFromTitle (ascii ''[S02] S03'') = Inr \<lparr>cleanTitle = ascii ''S03'', seasonNumber = Some (Num 2), year = None, originalTitle = ascii ''[S02] S03''\<rparr> \<and>
   (\<exists>m c' d' v. js_match (normalized (ascii ''[S02] S03'')) re_season_1 = Some m \<and> m_0 m = [91, c'] @ d' @ [93] \<and>
      is_S c' \<and> parseInt d' = Num v \<and>
      (\<exists>r. parseSeasonFromTitle (ascii ''[S02] S03'') = Inr r \<and> seasonNumber r = Some (Num v))) \<and>
   js_match (ascii ''S01 S01'') re_season_1 = None \<and>
   js_match (ascii ''S01 S01'') re_season_2 = Some \<lparr>m_index = 0, m_0 = ascii ''S01'', m_1 = Some (ascii ''01'')\<rparr> \<and>
   (\<exists>v. extract_int \<lparr>m_index = 0, m_0 = ascii ''S01'', m_1 = Some (ascii ''01'')\<rparr> = Inr (Some (Num v)) \<and>
      (\<forall>ps'. season_loop (\<lparr>regex = re_season_1, extractor = extract_bracket_S\<rparr> #
                          \<lparr>regex = re_season_2, extractor = extract_int\<rparr> # ps') (ascii ''S01 S01'') =
              Inr (Some (Num v), trim (replace (ascii ''S01 S01'') re_season_2 []))))"
proof -
  have t: "ascii ''[S02] S03'' = [] @ [91, 83] @ ascii ''02'' @ [93] @ ascii '' S03''"
    by (simp add: ascii_def)
  have h: "is_S 83 \<and> ascii ''02'' \<noteq> [] \<and> length (ascii ''02'') \<le> 2 \<and> (\<forall>x\<in>set (ascii ''02''). is_digit x)"
    by (simp add: ascii_def is_S_def is_digit_def)
  note inst = bracket_rule_priority[of "ascii ''[S02] S03''" "[]" 83 "ascii ''02''" "ascii '' S03''"
      "[\<lparr>regex = re_season_1, extractor = extract_bracket_S\<rparr>]"
      "\<lparr>regex = re_season_2, extractor = extract_int\<rparr>" "drop 2 patterns" "ascii ''S01 S01''"
      "\<lparr>m_index = 0, m_0 = ascii ''S01'', m_1 = Some (ascii ''01'')\<rparr>"]
  have sp: "patterns = [\<lparr>regex = re_season_1, extractor = extract_bracket_S\<rparr>] @
      \<lparr>regex = re_season_2, extractor = extract_int\<rparr> # drop 2 patterns"
    by (simp add: patterns_def)
  from inst t h have 1: "\<exists>m c' d' v. js_match (normalized (ascii ''[S02] S03'')) re_season_1 = Some m \<and>
      m_0 m = [91, c'] @ d' @ [93] \<and> is_S c' \<and> parseInt d' = Num v \<and>
      (\<exists>r. parseSeasonFromTitle (ascii ''[S02] S03'') = Inr r \<and> seasonNumber r = Some (Num v))"
    by blast
  from inst sp match_S01_S01_rule1 match_S01_S01_rule2
  have 2: "\<exists>v. extract_int \<lparr>m_index = 0, m_0 = ascii ''S01'', m_1 = Some (ascii ''01'')\<rparr> = Inr (Some (Num v)) \<and>
      (\<forall>ps'. season_loop ([\<lparr>regex = re_season_1, extractor = extract_bracket_S\<rparr>] @
                          \<lparr>regex = re_season_2, extractor = extract_int\<rparr> # ps') (ascii ''S01 S01'') =
              Inr (Some (Num v), trim (replace (ascii ''S01 S01'') (regex \<lparr>regex = re_season_2, extractor = extract_int\<rparr>) [])))"
    by simp
  from t 1 2 match_bracket_S02_S03_rule1 match_bracket_S02_S03_rule2 parse_bracket_S02_S03
    match_S01_S01_rule1 match_S01_S01_rule2
  show ?thesis by simp
qed

section \<open>Parsing the clean title again\<close>

text \<open>
  Claim C7, as the spec states it: after a parse on which a season rule fired, the pattern
  of that rule does not match the clean title. It fails when the title holds two tokens
  of one rule: on \<^verbatim>\<open>S01 S02\<close> the bare Latin rule fires (the bracketed rule does not match)
  and removes \<^verbatim>\<open>S01\<close>; the clean title is \<^verbatim>\<open>S02\<close>, which the same pattern matches, and
  parsing it again gives season 2.
\<close>

theorem reparse_same_rule_counterexample:
  "js_match (ascii ''S01 S02'') re_season_1 = None \<and>
   js_match (ascii ''S01 S02'') re_season_2 = Some \<lparr>m_index = 0, m_0 = ascii ''S01'', m_1 = Some (ascii ''01'')\<rparr> \<and>
   parseSeasonFromTitle (ascii ''S01 S02'') = Inr \<lparr>cleanTitle = ascii ''S02'', seasonNumber = Some (Num 1), year = None, originalTitle = ascii ''S01 S02''\<rparr> \<and>
   js_match (ascii ''S02'') re_season_2 = Some \<lparr>m_index = 0, m_0 = ascii ''S02'', m_1 = Some (ascii ''02'')\<rparr> \<and>
   parseSeasonFromTitle (ascii ''S02'') = Inr \<lparr>cleanTitle = [], seasonNumber = Some (Num 2), year = None, originalTitle = ascii ''S02''\<rparr>"
  using match_S01_S02_rule1 match_S01_S02_rule2 parse_S01_S02 match_S02_rule2 parse_S02 by simp

text \<open>
  Claim C7, amended: a parse on which a season rule fires returns a clean title strictly
  shorter than its input, so parsing the successive clean titles again reaches, after at
  most as many rounds as the title has characters, a title on which no season rule fires.
  A single parse removes one token only.
\<close>

theorem reparse_settles:
  "(parseSeasonFromTitle t = Inr r \<and> seasonNumber r \<noteq> None \<longrightarrow> length (cleanTitle r) < length t) \<and>
   (\<exists>k\<le>length t. \<exists>r'. parseSeasonFromTitle ((reclean ^^ k) t) = Inr r' \<and> seasonNumber r' = None)"
  using parse_shorter[of t r] reparse_settles_aux[of t] by auto

theorem reparse_settles_witness:
  "parseSeasonFromTitle (ascii ''S01 S02'') = Inr \<lparr>cleanTitle = ascii ''S02'', seasonNumber = Some (Num 1), year = None, originalTitle = ascii ''S01 S02''\<rparr> \<and>
   length (ascii ''S02'') < length (ascii ''S01 S02'') \<and>
   (\<exists>k\<le>length (ascii ''S01 S02''). \<exists>r'.
      parseSeasonFromTitle ((reclean ^^ k) (ascii ''S01 S02'')) = Inr r' \<and> seasonNumber r' = None)"
  using reparse_settles[of "ascii ''S01 S02''"
      "\<lparr>cleanTitle = ascii ''S02'', seasonNumber = Some (Num 1), year = None, originalTitle = ascii ''S01 S02''\<rparr>"]
    parse_S01_S02
  by simp

section \<open>The range of the year\<close>

text \<open>
  Claim C8. A year that is present is an integer with 1900 \<open>\<le>\<close> year \<open>\<le>\<close> 2100; no other
  year value is produced.
\<close>

theorem year_in_range:
  "parseSeasonFromTitle t = Inr r \<Longrightarrow> year r = Some y \<Longrightarrow> \<exists>v. y = Num v \<and> 1900 \<le> v \<and> v \<le> 2100"
proof -
  assume p: "parseSeasonFromTitle t = Inr r" and y: "year r = Some y"
  from p obtain s1 s2 where "year_loop yearPatterns s1 = (year r, s2)"
    by (rule parseD)
  with y show ?thesis using year_loop_range by simp
qed

theorem year_in_range_witness:
  "parseSeasonFromTitle (ascii ''Movie_Title_2021'') = Inr \<lparr>cleanTitle = ascii ''Movie Title'', seasonNumber = None, year = Some (Num 2021), originalTitle = ascii ''Movie_Title_2021''\<rparr> \<and>
   (\<exists>v. Num 2021 = Num v \<and> 1900 \<le> v \<and> v \<le> 2100)"
  using year_in_range[OF parse_Movie_Title_2021, of "Num 2021"] parse_Movie_Title_2021 by simp

section \<open>Totality\<close>

text \<open>
  Claim C9. For every input string the parser returns a record and raises no error: the
  result is never \<open>Inl\<close>, the original title is the input, and a season number or year that
  is present is a number. Every function of the model is total, so the parser and the
  numeral converter terminate on every input.
\<close>

theorem parseSeasonFromTitle_total:
  "\<exists>r. parseSeasonFromTitle t = Inr r \<and> originalTitle r = t \<and>
       seasonNumber r \<noteq> Some NaN \<and> year r \<noteq> Some NaN"
proof -
  obtain sn s1 where s: "season_loop patterns (replace t re_underscore [32]) = Inr (sn, s1)" "sn \<noteq> Some NaN"
    using season_loop_patterns[of "replace t re_underscore [32]"] by auto
  obtain y s2 where y: "year_loop yearPatterns s1 = (y, s2)" by (cases "year_loop yearPatterns s1")
  have "y \<noteq> Some NaN" using year_loop_range[of yearPatterns s1 NaN s2] y by auto
  with s y show ?thesis by (simp add: parseSeasonFromTitle_def)
qed

theorem parseSeasonFromTitle_total_witness:
  "parseSeasonFromTitle [] = Inr \<lparr>cleanTitle = [], seasonNumber = None, year = None, originalTitle = []\<rparr>"
  using parseSeasonFromTitle_total[of "[]"] parse_empty by simp

section \<open>The width of the Chinese capture\<close>

text \<open>
  Claim C10. Each of the four Chinese patterns captures one or two characters between
  the ordinal prefix and the season or part character: a match is the prefix, a numeral
  of one or two characters and the closing character (inside brackets for the bracketed
  patterns). So on the title made of the prefix, the three-character numeral for 21 and the
  season character no rule matches: the season number is absent and the clean title is
  the whole title, although the converter maps that numeral to 21.
\<close>

theorem chinese_capture_width:
  "(\<forall>s m. js_match s re_season_5 = Some m \<longrightarrow>
      (\<exists>d. m_1 m = Some d \<and> 1 \<le> length d \<and> length d \<le> 2 \<and> m_0 m = [91, zhDi] @ d @ [zhJi, 93])) \<and>
   (\<forall>s m. js_match s re_season_6 = Some m \<longrightarrow>
      (\<exists>d. m_1 m = Some d \<and> 1 \<le> length d \<and> length d \<le> 2 \<and> m_0 m = [zhDi] @ d @ [zhJi])) \<and>
   (\<forall>s m. js_match s re_season_7 = Some m \<longrightarrow>
      (\<exists>d. m_1 m = Some d \<and> 1 \<le> length d \<and> length d \<le> 2 \<and> m_0 m = [91, zhDi] @ d @ [zhBu, 93])) \<and>
   (\<forall>s m. js_match s re_season_8 = Some m \<longrightarrow>
      (\<exists>d. m_1 m = Some d \<and> 1 \<le> length d \<and> length d \<le> 2 \<and> m_0 m = [zhDi] @ d @ [zhBu])) \<and>
   parseSeasonFromTitle [zhDi, zh2, zh10, zh1, zhJi] = Inr \<lparr>cleanTitle = [zhDi, zh2, zh10, zh1, zhJi], seasonNumber = None, year = None, originalTitle = [zhDi, zh2, zh10, zh1, zhJi]\<rparr> \<and>
   chineseNumberToInt [zh2, zh10, zh1] = Num 21"
proof -
  have "chineseNumberToInt [zh2, zh10, zh1] = Num (2 * 10 + 1)"
    by (rule conv_tens_ten_unit) (simp_all add: chineseNumbers_def is_digit_def)
  then have "chineseNumberToInt [zh2, zh10, zh1] = Num 21" by simp
  with parse_zh_21 show ?thesis
    using chinese_bracket_form[OF _ re_season_5_def] chinese_bare_form[OF _ re_season_6_def]
      chinese_bracket_form[OF _ re_season_7_def] chinese_bare_form[OF _ re_season_8_def]
    by (intro conjI allI impI) assumption+
qed

theorem chinese_capture_width_witness:
  "js_match [zhDi, zh1, zhJi] re_season_6 = Some \<lparr>m_index = 0, m_0 = [zhDi, zh1, zhJi], m_1 = Some [zh1]\<rparr> \<and>
   1 \<le> length [zh1] \<and> length [zh1] \<le> (2::nat) \<and>
   parseSeasonFromTitle [zhDi, zh2, zh10, zh1, zhJi] = Inr \<lparr>cleanTitle = [zhDi, zh2, zh10, zh1, zhJi], seasonNumber = None, year = None, originalTitle = [zhDi, zh2, zh10, zh1, zhJi]\<rparr> \<and>
   chineseNumberToInt [zh2, zh10, zh1] = Num 21"
proof -
  from chinese_capture_width have
    w: "\<forall>s m. js_match s re_season_6 = Some m \<longrightarrow>
          (\<exists>d. m_1 m = Some d \<and> 1 \<le> length d \<and> length d \<le> 2 \<and> m_0 m = [zhDi] @ d @ [zhJi])"
    and p: "parseSeasonFromTitle [zhDi, zh2, zh10, zh1, zhJi] = Inr \<lparr>cleanTitle = [zhDi, zh2, zh10, zh1, zhJi], seasonNumber = None, year = None, originalTitle = [zhDi, zh2, zh10, zh1, zhJi]\<rparr>"
    and c: "chineseNumberToInt [zh2, zh10, zh1] = Num 21"
    by blast+
  from w match_zh_1_rule6 have "1 \<le> length [zh1] \<and> length [zh1] \<le> (2::nat)" by fastforce
  with match_zh_1_rule6 p c show ?thesis by simp
qed

end
